theory Spec2Isabelle
  imports Complex_Main "HOL-Library.Word" "HOL-Library.Signed_Division" "HOL-Library.Monad_Syntax"
begin

unbundle bit_operations_syntax

section \<open>The YUV to RGB converter of yuv\_converter.cpp\<close>

text \<open>
  The file holds one helper, \<^verbatim>\<open>clamp\<close>, and one JNI entry point,
  \<^verbatim>\<open>Java_com_signaturelens_core_native_NativeProcessor_convertYuvToRgb\<close>.
  The entry point resolves four direct buffers to addresses, logs and returns when one of
  them is null, and otherwise runs two nested loops that read one luma and two chroma
  bytes per pixel and store one packed 32-bit pixel.
\<close>

subsection \<open>Machine types\<close>

type_synonym u8 = "8 word"
type_synonym u32 = "32 word"

text \<open>
  A C++ \<^verbatim>\<open>int\<close> (and a \<^verbatim>\<open>jint\<close>) is a 32-bit signed integer. Values are kept
  as \<^typ>\<open>int\<close>; every index computation is checked against the 32-bit range, because
  signed overflow is undefined behaviour in C++. \<open>None\<close> is undefined behaviour
  throughout.
\<close>

definition int32 :: "int \<Rightarrow> int option" where
  "int32 v = (if - (2 ^ 31) \<le> v \<and> v < 2 ^ 31 then Some v else None)"

subsection \<open>Single-precision arithmetic\<close>

text \<open>
  The products \<^verbatim>\<open>1.402f * V\<close> are computed in IEEE-754 binary32: the \<^verbatim>\<open>int\<close>
  operand is converted to \<^verbatim>\<open>float\<close>, the exact product is rounded to the nearest value
  with a 24-bit significand (ties to even), and the cast \<^verbatim>\<open>(int)\<close> discards the
  fraction. A finite binary32 value is written \<open>F32 m e\<close> and stands for \<open>m * 2 ^ e\<close>.
  Exponent limits are not modelled: every value that occurs in the converter has a
  magnitude of 0 or between \<open>1/4\<close> and \<open>256\<close>, far from overflow and from the subnormal range.
\<close>

datatype f32 = F32 (mant: int) (expo: int)

function bitlen :: "int \<Rightarrow> nat" where
  "bitlen k = (if k \<le> 0 then 0 else Suc (bitlen (drop_bit 1 k)))"
  by pat_completeness auto
termination
  by (relation "measure nat") (auto simp add: drop_bit_eq_div)

declare bitlen.simps [simp del]

definition f32_round :: "f32 \<Rightarrow> f32" where
  "f32_round f =
     (let a = \<bar>mant f\<bar>; n = bitlen a in
      if n \<le> 24 then f
      else
        let s = n - 24;
            q = drop_bit s a;
            r = take_bit s a;
            half = push_bit (s - 1) 1;
            q' = (if half < r \<or> (r = half \<and> odd q) then q + 1 else q)
        in F32 (sgn (mant f) * q') (expo f + int s))"

definition f32_of_int :: "int \<Rightarrow> f32" where
  "f32_of_int v = f32_round (F32 v 0)"

definition f32_mul :: "f32 \<Rightarrow> f32 \<Rightarrow> f32" where
  "f32_mul a b = f32_round (F32 (mant a * mant b) (expo a + expo b))"

text \<open>The cast \<^verbatim>\<open>(int)\<close> of a \<^verbatim>\<open>float\<close> truncates toward zero.\<close>

definition int_of_f32 :: "f32 \<Rightarrow> int" where
  "int_of_f32 f =
     (if 0 \<le> expo f then push_bit (nat (expo f)) (mant f)
      else sgn (mant f) * drop_bit (nat (- expo f)) \<bar>mant f\<bar>)"

text \<open>
  The four literals, as the binary32 values nearest to the decimals:
  \<^verbatim>\<open>1.402f = 0x1.66e978p+0\<close>, \<^verbatim>\<open>0.344136f = 0x1.60653p-2\<close>,
  \<^verbatim>\<open>0.714136f = 0x1.6da33cp-1\<close>, \<^verbatim>\<open>1.772f = 0x1.c5a1cap+0\<close>.
\<close>

definition c1_402 :: f32 where "c1_402 = F32 11760828 (- 23)"
definition c0_344136 :: f32 where "c0_344136 = F32 11547288 (- 25)"
definition c0_714136 :: f32 where "c0_714136 = F32 11981214 (- 24)"
definition c1_772 :: f32 where "c1_772 = F32 14864613 (- 23)"

text \<open>The value of a binary32 number as a rational, to relate the literals to their decimals.\<close>

definition f32_val :: "f32 \<Rightarrow> rat" where
  "f32_val f =
     (if 0 \<le> expo f then of_int (mant f) * 2 ^ nat (expo f)
      else of_int (mant f) / 2 ^ nat (- expo f))"

subsection \<open>The per-pixel arithmetic\<close>

definition clamp :: "int \<Rightarrow> int" where
  "clamp v = (if v < 0 then 0 else if v > 255 then 255 else v)"

text \<open>
  \<open>Y\<close> is the luma byte as an \<^verbatim>\<open>int\<close>, \<open>U\<close> and \<open>V\<close> the chroma bytes minus 128.
\<close>

definition red :: "int \<Rightarrow> int \<Rightarrow> int" where
  "red Y V = clamp (Y + int_of_f32 (f32_mul c1_402 (f32_of_int V)))"

definition green :: "int \<Rightarrow> int \<Rightarrow> int \<Rightarrow> int" where
  "green Y U V =
     clamp (Y - int_of_f32 (f32_mul c0_344136 (f32_of_int U))
              - int_of_f32 (f32_mul c0_714136 (f32_of_int V)))"

definition blue :: "int \<Rightarrow> int \<Rightarrow> int" where
  "blue Y U = clamp (Y + int_of_f32 (f32_mul c1_772 (f32_of_int U)))"

text \<open>The arguments of the three calls of \<^verbatim>\<open>clamp\<close> in lines 50 to 52.\<close>

definition red_sum :: "int \<Rightarrow> int \<Rightarrow> int" where
  "red_sum Y V = Y + int_of_f32 (f32_mul c1_402 (f32_of_int V))"

definition green_sum :: "int \<Rightarrow> int \<Rightarrow> int \<Rightarrow> int" where
  "green_sum Y U V =
     Y - int_of_f32 (f32_mul c0_344136 (f32_of_int U))
       - int_of_f32 (f32_mul c0_714136 (f32_of_int V))"

definition blue_sum :: "int \<Rightarrow> int \<Rightarrow> int" where
  "blue_sum Y U = Y + int_of_f32 (f32_mul c1_772 (f32_of_int U))"

text \<open>
  \<^verbatim>\<open>(0xFF << 24) | (R << 16) | (G << 8) | B\<close> is an \<^verbatim>\<open>int\<close> expression: the bit pattern
  is read as a 32-bit two's complement value and then converted to \<^verbatim>\<open>uint32_t\<close> by the
  assignment.
\<close>

definition pack :: "int \<Rightarrow> int \<Rightarrow> int \<Rightarrow> u32" where
  "pack R G B =
     word_of_int (signed_take_bit 31 (push_bit 24 255 OR push_bit 16 R OR push_bit 8 G OR B))"

text \<open>
  The three bytes of one pixel, as the loop body reads them:
  \<^verbatim>\<open>Y = srcY[yIdx] & 0xFF\<close>, \<^verbatim>\<open>U = (srcU[uvIdx] & 0xFF) - 128\<close>,
  \<^verbatim>\<open>V = (srcV[uvIdx] & 0xFF) - 128\<close>, and the value stored for them.
\<close>

definition luma :: "u8 \<Rightarrow> int" where
  "luma b = uint b AND 255"

definition chroma :: "u8 \<Rightarrow> int" where
  "chroma b = (uint b AND 255) - 128"

definition pixel_value :: "u8 \<Rightarrow> u8 \<Rightarrow> u8 \<Rightarrow> u32" where
  "pixel_value yb ub vb =
     (let Y = luma yb; U = chroma ub; V = chroma vb;
          R = red Y V; G = green Y U V; B = blue Y U
      in pack R G B)"

subsection \<open>Buffers, geometry and memory\<close>

record geometry =
  width :: int
  height :: int
  yRowStride :: int
  uvRowStride :: int
  uvPixelStride :: int

text \<open>
  A direct buffer whose address \<^verbatim>\<open>GetDirectBufferAddress\<close> cannot resolve is \<open>None\<close>;
  otherwise it is the list of its elements. The four buffers are separate objects.
  \<open>logcat\<close> is the Android log, \<open>stored\<close> the sequence of output indices that have been
  stored to, oldest first.
\<close>

datatype log_entry = LOGE string string

record memory =
  yBuffer :: "u8 list option"
  uBuffer :: "u8 list option"
  vBuffer :: "u8 list option"
  outBuffer :: "u32 list option"
  logcat :: "log_entry list"
  stored :: "int list"

record planes =
  srcY :: "u8 list"
  srcU :: "u8 list"
  srcV :: "u8 list"

record dst_state =
  cells :: "u32 list"
  stores :: "int list"

text \<open>A read or a write outside the buffer is undefined behaviour.\<close>

definition load :: "'a list \<Rightarrow> int \<Rightarrow> 'a option" where
  "load buf i = (if 0 \<le> i \<and> i < int (length buf) then Some (buf ! nat i) else None)"

definition store :: "dst_state \<Rightarrow> int \<Rightarrow> u32 \<Rightarrow> dst_state option" where
  "store d i v =
     (if 0 \<le> i \<and> i < int (length (cells d))
      then Some \<lparr>cells = (cells d)[nat i := v], stores = stores d @ [i]\<rparr>
      else None)"

subsection \<open>The loop body\<close>

text \<open>\<^verbatim>\<open>yIdx = y * yRowStride + x\<close>\<close>

definition yIdx :: "geometry \<Rightarrow> int \<Rightarrow> int \<Rightarrow> int option" where
  "yIdx g y x = do { a \<leftarrow> int32 (y * yRowStride g); int32 (a + x) }"

text \<open>
  \<^verbatim>\<open>uvX = x / 2; uvY = y / 2; uvIdx = uvY * uvRowStride + uvX * uvPixelStride\<close>,
  with the division of C++, which truncates.
\<close>

definition uvIdx :: "geometry \<Rightarrow> int \<Rightarrow> int \<Rightarrow> int option" where
  "uvIdx g y x =
     (let uvX = x sdiv 2; uvY = y sdiv 2 in
      do { a \<leftarrow> int32 (uvY * uvRowStride g);
           b \<leftarrow> int32 (uvX * uvPixelStride g);
           int32 (a + b) })"

text \<open>\<^verbatim>\<open>y * width + x\<close>, the index of the store.\<close>

definition dstIdx :: "geometry \<Rightarrow> int \<Rightarrow> int \<Rightarrow> int option" where
  "dstIdx g y x = do { a \<leftarrow> int32 (y * width g); int32 (a + x) }"

text \<open>The value computed for pixel \<open>(x, y)\<close>: lines 41 to 52 and the right-hand side of line 54.\<close>

definition pixel_at :: "planes \<Rightarrow> geometry \<Rightarrow> int \<Rightarrow> int \<Rightarrow> u32 option" where
  "pixel_at P g y x =
     do { i \<leftarrow> yIdx g y x;
          j \<leftarrow> uvIdx g y x;
          yb \<leftarrow> load (srcY P) i;
          ub \<leftarrow> load (srcU P) j;
          vb \<leftarrow> load (srcV P) j;
          Some (pixel_value yb ub vb) }"

definition pixel_body :: "planes \<Rightarrow> geometry \<Rightarrow> int \<Rightarrow> int \<Rightarrow> dst_state \<Rightarrow> dst_state option" where
  "pixel_body P g y x d =
     do { v \<leftarrow> pixel_at P g y x;
          k \<leftarrow> dstIdx g y x;
          store d k v }"

subsection \<open>The loops and the entry point\<close>

text \<open>\<^verbatim>\<open>for (int x = ...; x < width; x++)\<close>, entered at \<open>x\<close>.\<close>

function row_loop :: "planes \<Rightarrow> geometry \<Rightarrow> int \<Rightarrow> int \<Rightarrow> dst_state \<Rightarrow> dst_state option" where
  "row_loop P g y x d =
     (if x < width g
      then (case pixel_body P g y x d of
              None \<Rightarrow> None
            | Some d' \<Rightarrow> row_loop P g y (x + 1) d')
      else Some d)"
  by pat_completeness auto
termination
  by (relation "measure (\<lambda>(P, g, y, x, d). nat (width g - x))") auto

declare row_loop.simps [simp del]

text \<open>\<^verbatim>\<open>for (int y = ...; y < height; y++)\<close>, entered at \<open>y\<close>.\<close>

function frame_loop :: "planes \<Rightarrow> geometry \<Rightarrow> int \<Rightarrow> dst_state \<Rightarrow> dst_state option" where
  "frame_loop P g y d =
     (if y < height g
      then (case row_loop P g y 0 d of
              None \<Rightarrow> None
            | Some d' \<Rightarrow> frame_loop P g (y + 1) d')
      else Some d)"
  by pat_completeness auto
termination
  by (relation "measure (\<lambda>(P, g, y, d). nat (height g - y))") auto

declare frame_loop.simps [simp del]

definition invalid_buffers :: log_entry where
  "invalid_buffers = LOGE ''SignatureLensNative'' ''Invalid buffers''"

definition convertYuvToRgb :: "memory \<Rightarrow> geometry \<Rightarrow> memory option" where
  "convertYuvToRgb m g =
     (if yBuffer m = None \<or> uBuffer m = None \<or> vBuffer m = None \<or> outBuffer m = None
      then Some (m\<lparr>logcat := logcat m @ [invalid_buffers]\<rparr>)
      else
        (case frame_loop \<lparr>srcY = the (yBuffer m), srcU = the (uBuffer m), srcV = the (vBuffer m)\<rparr> g 0
                \<lparr>cells = the (outBuffer m), stores = stored m\<rparr> of
           None \<Rightarrow> None
         | Some d \<Rightarrow> Some (m\<lparr>outBuffer := Some (cells d), stored := stores d\<rparr>)))"

subsection \<open>The specification's arithmetic\<close>

text \<open>
  The specification's words: \<open>clamp(v) = max(0, min(255, v))\<close>; the product of a decimal
  constant with a chroma value, truncated toward zero; and the three channel formulas
  \<open>R = clamp(Y + trunc(1.402 * V))\<close>,
  \<open>G = clamp(Y - trunc(0.344136 * U) - trunc(0.714136 * V))\<close>,
  \<open>B = clamp(Y + trunc(1.772 * U))\<close>, over exact decimals.
\<close>

definition spec_clamp :: "int \<Rightarrow> int" where
  "spec_clamp v = max 0 (min 255 v)"

definition trunc_toward_zero :: "rat \<Rightarrow> int" where
  "trunc_toward_zero q = (if 0 \<le> q then \<lfloor>q\<rfloor> else \<lceil>q\<rceil>)"

definition spec_R :: "int \<Rightarrow> int \<Rightarrow> int" where
  "spec_R Y V = spec_clamp (Y + trunc_toward_zero (1402 / 1000 * of_int V))"

definition spec_G :: "int \<Rightarrow> int \<Rightarrow> int \<Rightarrow> int" where
  "spec_G Y U V =
     spec_clamp (Y - trunc_toward_zero (344136 / 1000000 * of_int U)
                   - trunc_toward_zero (714136 / 1000000 * of_int V))"

definition spec_B :: "int \<Rightarrow> int \<Rightarrow> int" where
  "spec_B Y U = spec_clamp (Y + trunc_toward_zero (1772 / 1000 * of_int U))"

text \<open>Truncation toward zero of the fraction \<open>n * v / d\<close>, in integer arithmetic.\<close>

definition int_trunc :: "int \<Rightarrow> int \<Rightarrow> int \<Rightarrow> int" where
  "int_trunc n d v = sgn (n * v) * (\<bar>n * v\<bar> div d)"

subsection \<open>Calls and their results\<close>

text \<open>All four buffers resolve to an address.\<close>

definition buffers_ok :: "memory \<Rightarrow> bool" where
  "buffers_ok m \<longleftrightarrow>
     yBuffer m \<noteq> None \<and> uBuffer m \<noteq> None \<and> vBuffer m \<noteq> None \<and> outBuffer m \<noteq> None"

text \<open>
  The caller's obligations of the specification's data model: width and height positive,
  \<open>yRowStride \<ge> width\<close>, \<open>uvRowStride \<ge> ceil(width/2) * uvPixelStride\<close> with a pixel
  stride of at least 1, a luma plane of at least \<open>yRowStride * height\<close> bytes, chroma
  planes of at least \<open>uvRowStride * ceil(height/2)\<close> bytes, an output buffer of exactly
  \<open>width * height\<close> pixels. A direct buffer has a capacity below \<open>2 ^ 31\<close>.
\<close>

definition valid_call :: "memory \<Rightarrow> geometry \<Rightarrow> bool" where
  "valid_call m g \<longleftrightarrow>
     buffers_ok m \<and>
     0 < width g \<and> 0 < height g \<and> width g \<le> yRowStride g \<and>
     1 \<le> uvPixelStride g \<and> (width g + 1) div 2 * uvPixelStride g \<le> uvRowStride g \<and>
     yRowStride g * height g \<le> int (length (the (yBuffer m))) \<and>
     uvRowStride g * ((height g + 1) div 2) \<le> int (length (the (uBuffer m))) \<and>
     uvRowStride g * ((height g + 1) div 2) \<le> int (length (the (vBuffer m))) \<and>
     int (length (the (outBuffer m))) = width g * height g \<and>
     int (length (the (yBuffer m))) < 2 ^ 31 \<and>
     int (length (the (uBuffer m))) < 2 ^ 31 \<and>
     int (length (the (vBuffer m))) < 2 ^ 31 \<and>
     int (length (the (outBuffer m))) < 2 ^ 31"

text \<open>The input planes of a call.\<close>

definition planes_of :: "memory \<Rightarrow> planes" where
  "planes_of m = \<lparr>srcY = the (yBuffer m), srcU = the (uBuffer m), srcV = the (vBuffer m)\<rparr>"

text \<open>The output pixel at \<open>(x, y)\<close> after the call, if the call returns and the slot exists.\<close>

definition out_pixel :: "memory \<Rightarrow> geometry \<Rightarrow> int \<Rightarrow> int \<Rightarrow> u32 option" where
  "out_pixel m g y x =
     do { m' \<leftarrow> convertYuvToRgb m g;
          dst \<leftarrow> outBuffer m';
          load dst (y * width g + x) }"

text \<open>The stores performed by a call: what it appended to the store trace.\<close>

definition stores_of_call :: "memory \<Rightarrow> memory \<Rightarrow> int list" where
  "stores_of_call m m' = drop (length (stored m)) (stored m')"

text \<open>The red, green and blue channels of a packed pixel.\<close>

definition red_of :: "u32 \<Rightarrow> int" where
  "red_of px = uint (drop_bit 16 px AND 0xFF)"

definition green_of :: "u32 \<Rightarrow> int" where
  "green_of px = uint (drop_bit 8 px AND 0xFF)"

definition blue_of :: "u32 \<Rightarrow> int" where
  "blue_of px = uint (px AND 0xFF)"

text \<open>The change of the red channel of the output pixel at \<open>(x, y)\<close> between two runs.\<close>

definition red_delta :: "memory \<Rightarrow> memory \<Rightarrow> geometry \<Rightarrow> int \<Rightarrow> int \<Rightarrow> int option" where
  "red_delta m1 m2 g y x =
     do { p \<leftarrow> out_pixel m1 g y x;
          q \<leftarrow> out_pixel m2 g y x;
          Some (red_of q - red_of p) }"

subsection \<open>Concrete frames\<close>

text \<open>The 2 by 2 frame of the specification's concrete scenario.\<close>

definition geom2x2 :: geometry where
  "geom2x2 = \<lparr>width = 2, height = 2, yRowStride = 2, uvRowStride = 1, uvPixelStride = 1\<rparr>"

definition frame2x2 :: memory where
  "frame2x2 =
     \<lparr>yBuffer = Some [16, 16, 16, 16], uBuffer = Some [128], vBuffer = Some [128],
      outBuffer = Some [0, 0, 0, 0], logcat = [], stored = []\<rparr>"

text \<open>A 4 by 4 frame with a dark and a bright luma sample in its first chroma block.\<close>

definition geom4x4 :: geometry where
  "geom4x4 = \<lparr>width = 4, height = 4, yRowStride = 4, uvRowStride = 2, uvPixelStride = 1\<rparr>"

definition frame4x4 :: memory where
  "frame4x4 =
     \<lparr>yBuffer = Some [16, 235, 128, 128, 128, 128, 128, 128, 128, 128, 128, 128, 128, 128, 128, 128],
      uBuffer = Some [128, 128, 128, 128], vBuffer = Some [128, 128, 128, 128],
      outBuffer = Some [0, 0, 0, 0, 0, 0, 0, 0, 0, 0, 0, 0, 0, 0, 0, 0],
      logcat = [], stored = []\<rparr>"

text \<open>
  A 4 by 4 frame whose first row has luma 255, 0, 255, 0 and whose chroma blocks hold the
  extreme raw values 255 and 0 (top left and top right) and the centre 128 (bottom row).
\<close>

definition clamp_frame :: memory where
  "clamp_frame =
     \<lparr>yBuffer = Some [255, 0, 255, 0, 16, 16, 16, 16, 0, 200, 16, 16, 16, 16, 16, 16],
      uBuffer = Some [255, 0, 128, 128], vBuffer = Some [255, 0, 128, 128],
      outBuffer = Some [0, 0, 0, 0, 0, 0, 0, 0, 0, 0, 0, 0, 0, 0, 0, 0],
      logcat = [], stored = []\<rparr>"

text \<open>The same frame with only \<open>V[0]\<close> changed, from 128 to 255.\<close>

definition frame4x4_v :: memory where
  "frame4x4_v = frame4x4\<lparr>vBuffer := Some [255, 128, 128, 128]\<rparr>"

section \<open>Properties\<close>

subsection \<open>Bytes, clamping and packing\<close>

lemma luma_uint: "luma b = uint b"
proof -
  have "uint b AND 255 = take_bit 8 (uint b)"
    by (simp add: take_bit_eq_mask mask_eq_exp_minus_1)
  also have "\<dots> = uint b"
    using uint_lt2p [of b] by (simp add: take_bit_int_eq_self)
  finally show ?thesis by (simp add: luma_def)
qed

lemma luma_range: "0 \<le> luma b \<and> luma b \<le> 255"
  using uint_lt2p [of b] by (simp add: luma_uint)

lemma chroma_uint: "chroma b = uint b - 128"
  using luma_uint [of b] by (simp add: luma_def chroma_def)

lemma chroma_range: "- 128 \<le> chroma b \<and> chroma b \<le> 127"
  using uint_lt2p [of b] by (simp add: chroma_uint)

lemma clamp_spec: "clamp v = spec_clamp v"
  by (simp add: clamp_def spec_clamp_def)

lemma clamp_range: "0 \<le> clamp v \<and> clamp v \<le> 255"
  by (simp add: clamp_def)

lemma pack_word:
  "pack R G B = push_bit 24 255 OR push_bit 16 (word_of_int R) OR push_bit 8 (word_of_int G) OR word_of_int B"
  by (rule bit_word_eqI) (auto simp add: pack_def bit_simps)

lemma alpha_const: "push_bit 24 (255 :: u32) = 0xFF000000"
  by simp

lemma byte_bit: "0 \<le> k \<Longrightarrow> k \<le> 255 \<Longrightarrow> bit k n \<Longrightarrow> n < 8" for k :: int
proof -
  assume a: "0 \<le> k" "k \<le> 255" "bit k n"
  have "take_bit 8 k = k" using a by (simp add: take_bit_int_eq_self)
  then have "bit (take_bit 8 k) n" using a by simp
  then show "n < 8" by (simp add: bit_take_bit_iff)
qed

lemma pack_alpha:
  assumes "0 \<le> R" "R \<le> 255" "0 \<le> G" "G \<le> 255" "0 \<le> B" "B \<le> 255"
  shows "drop_bit 24 (pack R G B) = 0xFF"
proof (rule bit_word_eqI)
  fix n assume "n < LENGTH(32)"
  have m: "(0xFF :: u32) = mask 8" by (simp add: mask_eq_exp_minus_1)
  have mi: "(255 :: int) = mask 8" by (simp add: mask_eq_exp_minus_1)
  show "bit (drop_bit 24 (pack R G B)) n = bit (0xFF :: u32) n"
    unfolding m pack_def
    using byte_bit [OF assms(1,2), of "n + 8"] byte_bit [OF assms(3,4), of "n + 16"] byte_bit [OF assms(5,6), of "n + 24"]
    apply (auto simp add: bit_simps mi)
    done
qed

subsection \<open>The casts of the four products\<close>

text \<open>
  For every chroma value from -128 to 127 the cast of the binary32 product is the exact
  decimal product truncated toward zero: the rounding of the literal and of the product
  never crosses an integer.
\<close>

lemma trunc_ratio:
  assumes "0 < d"
  shows "trunc_toward_zero (of_int n / of_int d * of_int v) = int_trunc n d v"
proof -
  define p where "p = n * v"
  have q: "of_int n / of_int d * of_int v = (of_int p / of_int d :: rat)"
    by (simp add: p_def)
  have t: "int_trunc n d v = sgn p * (\<bar>p\<bar> div d)"
    by (simp add: int_trunc_def p_def)
  have dp: "(0::rat) < of_int d" using assms by simp
  show ?thesis
  proof (cases "0 \<le> p")
    case True
    then have "(0::rat) \<le> of_int p" by simp
    then have "0 \<le> (of_int p / of_int d :: rat)"
      using dp by (rule divide_nonneg_pos)
    then have "trunc_toward_zero (of_int p / of_int d) = \<lfloor>of_int p / of_int d :: rat\<rfloor>"
      by (simp only: trunc_toward_zero_def if_True)
    also have "\<dots> = p div d" by (rule floor_divide_of_int_eq)
    also have "\<dots> = sgn p * (\<bar>p\<bar> div d)"
      using True by (cases "p = 0") (simp_all add: sgn_if)
    finally show ?thesis by (simp only: q t)
  next
    case False
    then have neg: "p < 0" by simp
    then have "of_int p < (0::rat)" by simp
    then have "(of_int p / of_int d :: rat) < 0"
      using dp by (rule divide_neg_pos)
    then have "trunc_toward_zero (of_int p / of_int d) = \<lceil>of_int p / of_int d :: rat\<rceil>"
      by (simp only: trunc_toward_zero_def) simp
    also have "\<dots> = - \<lfloor>of_int (- p) / of_int d :: rat\<rfloor>"
      by (simp add: ceiling_def)
    also have "\<dots> = - ((- p) div d)" by (simp only: floor_divide_of_int_eq)
    also have "\<dots> = sgn p * (\<bar>p\<bar> div d)"
      using neg by (simp add: sgn_if)
    finally show ?thesis by (simp only: q t)
  qed
qed

lemma literals_nearest:
  "\<bar>f32_val c1_402 - 1402 / 1000\<bar> < 1 / 2 ^ 24"
  "\<bar>f32_val c0_344136 - 344136 / 1000000\<bar> < 1 / 2 ^ 26"
  "\<bar>f32_val c0_714136 - 714136 / 1000000\<bar> < 1 / 2 ^ 25"
  "\<bar>f32_val c1_772 - 1772 / 1000\<bar> < 1 / 2 ^ 24"
  by (simp_all add: f32_val_def c1_402_def c0_344136_def c0_714136_def c1_772_def)

lemma literals_normal:
  "bitlen (mant c1_402) = 24" "bitlen (mant c0_344136) = 24"
  "bitlen (mant c0_714136) = 24" "bitlen (mant c1_772) = 24"
  by (simp_all add: c1_402_def c0_344136_def c0_714136_def c1_772_def bitlen.simps drop_bit_eq_div)

lemmas f32_eval = f32_mul_def f32_of_int_def f32_round_def int_of_f32_def int_trunc_def
  bitlen.simps drop_bit_eq_div take_bit_eq_mod push_bit_eq_mult

lemma cast_c1_402_neg:
  "list_all (\<lambda>V. int_of_f32 (f32_mul c1_402 (f32_of_int V)) = int_trunc 1402 1000 V) [- 128..- 2]"
  apply simp
  apply (simp add: f32_eval c1_402_def)
  done

lemma cast_c1_402_pos:
  "list_all (\<lambda>V. int_of_f32 (f32_mul c1_402 (f32_of_int V)) = int_trunc 1402 1000 V) [2..127]"
  apply simp
  apply (simp add: f32_eval c1_402_def)
  done

lemma cast_c1_402_mid:
  "list_all (\<lambda>V. int_of_f32 (f32_mul c1_402 (f32_of_int V)) = int_trunc 1402 1000 V) [- 1, 0, 1]"
  by (simp add: f32_eval c1_402_def)

lemma cast_c1_402:
  assumes "- 128 \<le> V" "V \<le> 127"
  shows "int_of_f32 (f32_mul c1_402 (f32_of_int V)) = trunc_toward_zero (1402 / 1000 * of_int V)"
proof -
  from assms have "V \<in> set [- 128..- 2] \<or> V \<in> set [- 1, 0, 1] \<or> V \<in> set [2..127]"
    unfolding set_upto by auto
  with cast_c1_402_neg cast_c1_402_mid cast_c1_402_pos
  have "int_of_f32 (f32_mul c1_402 (f32_of_int V)) = int_trunc 1402 1000 V"
    unfolding list_all_iff by blast
  also have "\<dots> = trunc_toward_zero (of_int 1402 / of_int 1000 * of_int V)"
    by (rule trunc_ratio [symmetric]) simp
  finally show ?thesis by simp
qed

lemma cast_c0_344136_neg:
  "list_all (\<lambda>V. int_of_f32 (f32_mul c0_344136 (f32_of_int V)) = int_trunc 344136 1000000 V) [- 128..- 2]"
  apply simp
  apply (simp add: f32_eval c0_344136_def)
  done

lemma cast_c0_344136_pos:
  "list_all (\<lambda>V. int_of_f32 (f32_mul c0_344136 (f32_of_int V)) = int_trunc 344136 1000000 V) [2..127]"
  apply simp
  apply (simp add: f32_eval c0_344136_def)
  done

lemma cast_c0_344136_mid:
  "list_all (\<lambda>V. int_of_f32 (f32_mul c0_344136 (f32_of_int V)) = int_trunc 344136 1000000 V) [- 1, 0, 1]"
  by (simp add: f32_eval c0_344136_def)

lemma cast_c0_344136:
  assumes "- 128 \<le> V" "V \<le> 127"
  shows "int_of_f32 (f32_mul c0_344136 (f32_of_int V)) = trunc_toward_zero (344136 / 1000000 * of_int V)"
proof -
  from assms have "V \<in> set [- 128..- 2] \<or> V \<in> set [- 1, 0, 1] \<or> V \<in> set [2..127]"
    unfolding set_upto by auto
  with cast_c0_344136_neg cast_c0_344136_mid cast_c0_344136_pos
  have "int_of_f32 (f32_mul c0_344136 (f32_of_int V)) = int_trunc 344136 1000000 V"
    unfolding list_all_iff by blast
  also have "\<dots> = trunc_toward_zero (of_int 344136 / of_int 1000000 * of_int V)"
    by (rule trunc_ratio [symmetric]) simp
  finally show ?thesis by simp
qed

lemma cast_c0_714136_neg:
  "list_all (\<lambda>V. int_of_f32 (f32_mul c0_714136 (f32_of_int V)) = int_trunc 714136 1000000 V) [- 128..- 2]"
  apply simp
  apply (simp add: f32_eval c0_714136_def)
  done

lemma cast_c0_714136_pos:
  "list_all (\<lambda>V. int_of_f32 (f32_mul c0_714136 (f32_of_int V)) = int_trunc 714136 1000000 V) [2..127]"
  apply simp
  apply (simp add: f32_eval c0_714136_def)
  done

lemma cast_c0_714136_mid:
  "list_all (\<lambda>V. int_of_f32 (f32_mul c0_714136 (f32_of_int V)) = int_trunc 714136 1000000 V) [- 1, 0, 1]"
  by (simp add: f32_eval c0_714136_def)

lemma cast_c0_714136:
  assumes "- 128 \<le> V" "V \<le> 127"
  shows "int_of_f32 (f32_mul c0_714136 (f32_of_int V)) = trunc_toward_zero (714136 / 1000000 * of_int V)"
proof -
  from assms have "V \<in> set [- 128..- 2] \<or> V \<in> set [- 1, 0, 1] \<or> V \<in> set [2..127]"
    unfolding set_upto by auto
  with cast_c0_714136_neg cast_c0_714136_mid cast_c0_714136_pos
  have "int_of_f32 (f32_mul c0_714136 (f32_of_int V)) = int_trunc 714136 1000000 V"
    unfolding list_all_iff by blast
  also have "\<dots> = trunc_toward_zero (of_int 714136 / of_int 1000000 * of_int V)"
    by (rule trunc_ratio [symmetric]) simp
  finally show ?thesis by simp
qed

lemma cast_c1_772_neg:
  "list_all (\<lambda>V. int_of_f32 (f32_mul c1_772 (f32_of_int V)) = int_trunc 1772 1000 V) [- 128..- 2]"
  apply simp
  apply (simp add: f32_eval c1_772_def)
  done

lemma cast_c1_772_pos:
  "list_all (\<lambda>V. int_of_f32 (f32_mul c1_772 (f32_of_int V)) = int_trunc 1772 1000 V) [2..127]"
  apply simp
  apply (simp add: f32_eval c1_772_def)
  done

lemma cast_c1_772_mid:
  "list_all (\<lambda>V. int_of_f32 (f32_mul c1_772 (f32_of_int V)) = int_trunc 1772 1000 V) [- 1, 0, 1]"
  by (simp add: f32_eval c1_772_def)

lemma cast_c1_772:
  assumes "- 128 \<le> V" "V \<le> 127"
  shows "int_of_f32 (f32_mul c1_772 (f32_of_int V)) = trunc_toward_zero (1772 / 1000 * of_int V)"
proof -
  from assms have "V \<in> set [- 128..- 2] \<or> V \<in> set [- 1, 0, 1] \<or> V \<in> set [2..127]"
    unfolding set_upto by auto
  with cast_c1_772_neg cast_c1_772_mid cast_c1_772_pos
  have "int_of_f32 (f32_mul c1_772 (f32_of_int V)) = int_trunc 1772 1000 V"
    unfolding list_all_iff by blast
  also have "\<dots> = trunc_toward_zero (of_int 1772 / of_int 1000 * of_int V)"
    by (rule trunc_ratio [symmetric]) simp
  finally show ?thesis by simp
qed

lemma red_clamp: "red Y V = clamp (red_sum Y V)"
  by (simp add: red_def red_sum_def)

lemma green_clamp: "green Y U V = clamp (green_sum Y U V)"
  by (simp add: green_def green_sum_def)

lemma blue_clamp: "blue Y U = clamp (blue_sum Y U)"
  by (simp add: blue_def blue_sum_def)

lemma red_spec: "red (luma yb) (chroma vb) = spec_R (uint yb) (uint vb - 128)"
  using chroma_range [of vb]
  by (simp add: red_def spec_R_def clamp_spec cast_c1_402 luma_uint flip: chroma_uint)

lemma green_spec:
  "green (luma yb) (chroma ub) (chroma vb) = spec_G (uint yb) (uint ub - 128) (uint vb - 128)"
  using chroma_range [of ub] chroma_range [of vb]
  by (simp add: green_def spec_G_def clamp_spec cast_c0_344136 cast_c0_714136 luma_uint
      flip: chroma_uint)

lemma blue_spec: "blue (luma yb) (chroma ub) = spec_B (uint yb) (uint ub - 128)"
  using chroma_range [of ub]
  by (simp add: blue_def spec_B_def clamp_spec cast_c1_772 luma_uint flip: chroma_uint)

subsection \<open>The loops\<close>

lemma int32_Some: "int32 v = Some w \<longleftrightarrow> w = v \<and> - (2 ^ 31) \<le> v \<and> v < 2 ^ 31"
  by (auto simp add: int32_def)

lemma dstIdx_Some: "dstIdx g y x = Some k \<Longrightarrow> k = y * width g + x"
  by (auto simp add: dstIdx_def int32_Some split: Option.bind_splits)

lemma store_Some:
  "store d k v = Some d' \<longleftrightarrow>
     0 \<le> k \<and> k < int (length (cells d)) \<and> d' = \<lparr>cells = (cells d)[nat k := v], stores = stores d @ [k]\<rparr>"
  by (auto simp add: store_def)

lemma pixel_body_Some:
  "pixel_body P g y x d = Some d' \<longleftrightarrow>
     (\<exists>v. pixel_at P g y x = Some v \<and> dstIdx g y x = Some (y * width g + x) \<and>
          0 \<le> y * width g + x \<and> y * width g + x < int (length (cells d)) \<and>
          d' = \<lparr>cells = (cells d)[nat (y * width g + x) := v], stores = stores d @ [y * width g + x]\<rparr>)"
  by (auto simp add: pixel_body_def store_Some split: Option.bind_splits dest: dstIdx_Some)

lemma row_loop_length:
  "row_loop P g y x d = Some d' \<Longrightarrow> length (cells d') = length (cells d)"
proof (induction P g y x d rule: row_loop.induct)
  case (1 P g y x d)
  show ?case
  proof (cases "x < width g")
    case True
    with "1.prems" obtain d1 where b: "pixel_body P g y x d = Some d1"
      and r: "row_loop P g y (x + 1) d1 = Some d'"
      by (auto simp add: row_loop.simps [of P g y x d] split: option.splits)
    from b have "length (cells d1) = length (cells d)"
      by (auto simp add: pixel_body_Some)
    with "1.IH" [OF True b r] show ?thesis by simp
  next
    case False
    with "1.prems" show ?thesis by (simp add: row_loop.simps [of P g y x d])
  qed
qed

lemma row_loop_stores:
  "row_loop P g y x d = Some d' \<Longrightarrow>
     stores d' = stores d @ map (\<lambda>x'. y * width g + x') [x..width g - 1]"
proof (induction P g y x d rule: row_loop.induct)
  case (1 P g y x d)
  show ?case
  proof (cases "x < width g")
    case True
    with "1.prems" obtain d1 where b: "pixel_body P g y x d = Some d1"
      and r: "row_loop P g y (x + 1) d1 = Some d'"
      by (auto simp add: row_loop.simps [of P g y x d] split: option.splits)
    from b have "stores d1 = stores d @ [y * width g + x]"
      by (auto simp add: pixel_body_Some)
    moreover from True have "[x..width g - 1] = x # [x + 1..width g - 1]"
      by (simp add: upto_rec1)
    ultimately show ?thesis using "1.IH" [OF True b r] by simp
  next
    case False
    with "1.prems" show ?thesis by (simp add: row_loop.simps [of P g y x d])
  qed
qed

lemma row_loop_frame:
  "row_loop P g y x d = Some d' \<Longrightarrow>
     \<forall>x'. x \<le> x' \<and> x' < width g \<longrightarrow> int i \<noteq> y * width g + x' \<Longrightarrow>
     cells d' ! i = cells d ! i"
proof (induction P g y x d rule: row_loop.induct)
  case (1 P g y x d)
  show ?case
  proof (cases "x < width g")
    case True
    with "1.prems" obtain d1 where b: "pixel_body P g y x d = Some d1"
      and r: "row_loop P g y (x + 1) d1 = Some d'"
      by (auto simp add: row_loop.simps [of P g y x d] split: option.splits)
    from "1.prems"(2) True have ne: "int i \<noteq> y * width g + x" by simp
    from b obtain v where c: "cells d1 = (cells d)[nat (y * width g + x) := v]"
      and k: "0 \<le> y * width g + x"
      by (auto simp add: pixel_body_Some)
    from ne k have "nat (y * width g + x) \<noteq> i" by auto
    then have "cells d1 ! i = cells d ! i" by (simp add: c)
    moreover have "cells d' ! i = cells d1 ! i"
      using "1.IH" [OF True b r] "1.prems"(2) by simp
    ultimately show ?thesis by simp
  next
    case False
    with "1.prems" show ?thesis by (simp add: row_loop.simps [of P g y x d])
  qed
qed

lemma row_loop_pixels:
  "row_loop P g y x d = Some d' \<Longrightarrow> x \<le> x' \<Longrightarrow> x' < width g \<Longrightarrow>
     0 \<le> y * width g + x' \<and> y * width g + x' < int (length (cells d)) \<and>
     pixel_at P g y x' = Some (cells d' ! nat (y * width g + x'))"
proof (induction P g y x d rule: row_loop.induct)
  case (1 P g y x d)
  from "1.prems" have True: "x < width g" by simp
  with "1.prems" obtain d1 where b: "pixel_body P g y x d = Some d1"
    and r: "row_loop P g y (x + 1) d1 = Some d'"
    by (auto simp add: row_loop.simps [of P g y x d] split: option.splits)
  from b obtain v where v: "pixel_at P g y x = Some v"
    and k: "0 \<le> y * width g + x" "y * width g + x < int (length (cells d))"
    and c: "cells d1 = (cells d)[nat (y * width g + x) := v]"
    by (auto simp add: pixel_body_Some)
  have len: "length (cells d1) = length (cells d)" by (simp add: c)
  show ?case
  proof (cases "x' = x")
    case True
    have "cells d' ! nat (y * width g + x) = cells d1 ! nat (y * width g + x)"
      using k by (intro row_loop_frame [OF r]) auto
    also have "\<dots> = v" using k by (simp add: c)
    finally show ?thesis using v k True by simp
  next
    case False
    with "1.prems" have "x + 1 \<le> x'" by simp
    from "1.IH" [OF \<open>x < width g\<close> b r this "1.prems"(3)] show ?thesis by (simp add: len)
  qed
qed


lemma frame_loop_length:
  "frame_loop P g y d = Some d' \<Longrightarrow> length (cells d') = length (cells d)"
proof (induction P g y d rule: frame_loop.induct)
  case (1 P g y d)
  show ?case
  proof (cases "y < height g")
    case True
    with "1.prems" obtain d1 where b: "row_loop P g y 0 d = Some d1"
      and r: "frame_loop P g (y + 1) d1 = Some d'"
      by (auto simp add: frame_loop.simps [of P g y d] split: option.splits)
    from "1.IH" [OF True b r] row_loop_length [OF b] show ?thesis by simp
  next
    case False
    with "1.prems" show ?thesis by (simp add: frame_loop.simps [of P g y d])
  qed
qed

lemma frame_loop_stores:
  "frame_loop P g y d = Some d' \<Longrightarrow>
     stores d' = stores d @
       concat (map (\<lambda>y'. map (\<lambda>x'. y' * width g + x') [0..width g - 1]) [y..height g - 1])"
proof (induction P g y d rule: frame_loop.induct)
  case (1 P g y d)
  show ?case
  proof (cases "y < height g")
    case True
    with "1.prems" obtain d1 where b: "row_loop P g y 0 d = Some d1"
      and r: "frame_loop P g (y + 1) d1 = Some d'"
      by (auto simp add: frame_loop.simps [of P g y d] split: option.splits)
    from True have "[y..height g - 1] = y # [y + 1..height g - 1]"
      by (simp add: upto_rec1)
    then show ?thesis using "1.IH" [OF True b r] row_loop_stores [OF b] by simp
  next
    case False
    with "1.prems" show ?thesis by (simp add: frame_loop.simps [of P g y d])
  qed
qed

lemma frame_loop_frame:
  "frame_loop P g y d = Some d' \<Longrightarrow>
     \<forall>y' x'. y \<le> y' \<and> y' < height g \<and> 0 \<le> x' \<and> x' < width g \<longrightarrow> int i \<noteq> y' * width g + x' \<Longrightarrow>
     cells d' ! i = cells d ! i"
proof (induction P g y d rule: frame_loop.induct)
  case (1 P g y d)
  show ?case
  proof (cases "y < height g")
    case True
    with "1.prems" obtain d1 where b: "row_loop P g y 0 d = Some d1"
      and r: "frame_loop P g (y + 1) d1 = Some d'"
      by (auto simp add: frame_loop.simps [of P g y d] split: option.splits)
    have "cells d1 ! i = cells d ! i"
      using "1.prems"(2) True by (intro row_loop_frame [OF b]) auto
    moreover have "cells d' ! i = cells d1 ! i"
      using "1.prems"(2) by (intro "1.IH" [OF True b r]) auto
    ultimately show ?thesis by simp
  next
    case False
    with "1.prems" show ?thesis by (simp add: frame_loop.simps [of P g y d])
  qed
qed

lemma row_index_distinct:
  fixes w :: int
  assumes "y < y'" "0 \<le> x'" "x < w" "0 \<le> x"
  shows "y * w + x \<noteq> y' * w + x'"
proof -
  from assms have "0 \<le> w" by simp
  from assms have "1 \<le> y' - y" by simp
  then have "1 * w \<le> (y' - y) * w" using \<open>0 \<le> w\<close> by (rule mult_right_mono)
  then have "y * w + w \<le> y' * w" by (simp add: algebra_simps)
  with assms show ?thesis by simp
qed

lemma frame_loop_pixels:
  "frame_loop P g y d = Some d' \<Longrightarrow> y \<le> y' \<Longrightarrow> y' < height g \<Longrightarrow> 0 \<le> x' \<Longrightarrow> x' < width g \<Longrightarrow>
     0 \<le> y' * width g + x' \<and> y' * width g + x' < int (length (cells d)) \<and>
     pixel_at P g y' x' = Some (cells d' ! nat (y' * width g + x'))"
proof (induction P g y d rule: frame_loop.induct)
  case (1 P g y d)
  from "1.prems" have True: "y < height g" by simp
  with "1.prems" obtain d1 where b: "row_loop P g y 0 d = Some d1"
    and r: "frame_loop P g (y + 1) d1 = Some d'"
    by (auto simp add: frame_loop.simps [of P g y d] split: option.splits)
  have len: "length (cells d1) = length (cells d)" by (rule row_loop_length [OF b])
  show ?case
  proof (cases "y' = y")
    case True
    from row_loop_pixels [OF b \<open>0 \<le> x'\<close> \<open>x' < width g\<close>]
    have k: "0 \<le> y * width g + x'" "y * width g + x' < int (length (cells d))"
      and v: "pixel_at P g y x' = Some (cells d1 ! nat (y * width g + x'))" by simp_all
    have "cells d' ! nat (y * width g + x') = cells d1 ! nat (y * width g + x')"
    proof (rule frame_loop_frame [OF r], intro allI impI)
      fix y'' x'' assume "y + 1 \<le> y'' \<and> y'' < height g \<and> 0 \<le> x'' \<and> x'' < width g"
      then have "y * width g + x' \<noteq> y'' * width g + x''"
        using "1.prems" by (intro row_index_distinct) auto
      with k show "int (nat (y * width g + x')) \<noteq> y'' * width g + x''" by simp
    qed
    with k v True show ?thesis by simp
  next
    case False
    with "1.prems" have "y + 1 \<le> y'" by simp
    from "1.IH" [OF \<open>y < height g\<close> b r this "1.prems"(3,4,5)] show ?thesis by (simp add: len)
  qed
qed

lemma row_loop_total:
  "\<forall>x'. x \<le> x' \<and> x' < width g \<longrightarrow>
      pixel_at P g y x' \<noteq> None \<and> dstIdx g y x' \<noteq> None \<and>
      0 \<le> y * width g + x' \<and> y * width g + x' < int (length (cells d)) \<Longrightarrow>
   \<exists>d'. row_loop P g y x d = Some d'"
proof (induction P g y x d rule: row_loop.induct)
  case (1 P g y x d)
  show ?case
  proof (cases "x < width g")
    case True
    with "1.prems" obtain v k where v: "pixel_at P g y x = Some v" and k: "dstIdx g y x = Some k"
      and r: "0 \<le> y * width g + x" "y * width g + x < int (length (cells d))"
      by auto
    from dstIdx_Some [OF k] have k': "k = y * width g + x" .
    define d1 where "d1 = \<lparr>cells = (cells d)[nat k := v], stores = stores d @ [k]\<rparr>"
    have b: "pixel_body P g y x d = Some d1"
      using v k r by (simp add: pixel_body_def store_def d1_def k')
    have "\<exists>d'. row_loop P g y (x + 1) d1 = Some d'"
      using "1.prems" by (intro "1.IH" [OF True b]) (simp add: d1_def)
    then show ?thesis using True b by (simp add: row_loop.simps [of P g y x d])
  next
    case False
    then show ?thesis by (simp add: row_loop.simps [of P g y x d])
  qed
qed

lemma frame_loop_total:
  "\<forall>y' x'. y \<le> y' \<and> y' < height g \<and> 0 \<le> x' \<and> x' < width g \<longrightarrow>
      pixel_at P g y' x' \<noteq> None \<and> dstIdx g y' x' \<noteq> None \<and>
      0 \<le> y' * width g + x' \<and> y' * width g + x' < int (length (cells d)) \<Longrightarrow>
   \<exists>d'. frame_loop P g y d = Some d'"
proof (induction P g y d rule: frame_loop.induct)
  case (1 P g y d)
  show ?case
  proof (cases "y < height g")
    case True
    have "\<exists>d1. row_loop P g y 0 d = Some d1"
      using "1.prems" True by (intro row_loop_total) auto
    then obtain d1 where b: "row_loop P g y 0 d = Some d1" ..
    have "\<exists>d'. frame_loop P g (y + 1) d1 = Some d'"
      using "1.prems" row_loop_length [OF b] by (intro "1.IH" [OF True b]) auto
    then show ?thesis using True b by (simp add: frame_loop.simps [of P g y d])
  next
    case False
    then show ?thesis by (simp add: frame_loop.simps [of P g y d])
  qed
qed

subsection \<open>The entry point\<close>

lemma convert_null:
  "\<not> buffers_ok m \<Longrightarrow> convertYuvToRgb m g = Some (m\<lparr>logcat := logcat m @ [invalid_buffers]\<rparr>)"
  by (auto simp add: convertYuvToRgb_def buffers_ok_def)

lemma convert_ok:
  "buffers_ok m \<Longrightarrow>
     convertYuvToRgb m g =
       (case frame_loop (planes_of m) g 0 \<lparr>cells = the (outBuffer m), stores = stored m\<rparr> of
          None \<Rightarrow> None
        | Some d \<Rightarrow> Some (m\<lparr>outBuffer := Some (cells d), stored := stores d\<rparr>))"
  by (auto simp add: convertYuvToRgb_def buffers_ok_def planes_of_def)

lemma frame_loop_no_columns:
  "width g \<le> 0 \<Longrightarrow> frame_loop P g y d = Some d"
proof (induction P g y d rule: frame_loop.induct)
  case (1 P g y d)
  from "1.prems" have r: "row_loop P g y 0 d = Some d"
    by (simp add: row_loop.simps [of P g y 0 d])
  show ?case
  proof (cases "y < height g")
    case True
    from "1.IH" [OF True r "1.prems"] True r show ?thesis
      by (simp add: frame_loop.simps [of P g y d])
  next
    case False
    then show ?thesis by (simp add: frame_loop.simps [of P g y d])
  qed
qed

lemma sdiv_nonneg: "0 \<le> a \<Longrightarrow> a sdiv 2 = a div 2" for a :: int
  by (simp add: signed_divide_int_def sgn_if)

lemma yIdx_Some: "yIdx g y x = Some i \<Longrightarrow> i = y * yRowStride g + x"
  by (auto simp add: yIdx_def int32_Some split: Option.bind_splits)

lemma uvIdx_Some:
  "uvIdx g y x = Some j \<Longrightarrow> 0 \<le> x \<Longrightarrow> 0 \<le> y \<Longrightarrow>
     j = y div 2 * uvRowStride g + x div 2 * uvPixelStride g"
  by (auto simp add: uvIdx_def int32_Some sdiv_nonneg split: Option.bind_splits)

lemma pixel_at_Some:
  assumes "pixel_at P g y x = Some v" "0 \<le> x" "0 \<le> y"
  shows "\<exists>yb ub vb.
           load (srcY P) (y * yRowStride g + x) = Some yb \<and>
           load (srcU P) (y div 2 * uvRowStride g + x div 2 * uvPixelStride g) = Some ub \<and>
           load (srcV P) (y div 2 * uvRowStride g + x div 2 * uvPixelStride g) = Some vb \<and>
           v = pixel_value yb ub vb"
proof -
  from assms(1) obtain i j yb ub vb where
    i: "yIdx g y x = Some i" and j: "uvIdx g y x = Some j"
    and l: "load (srcY P) i = Some yb" "load (srcU P) j = Some ub" "load (srcV P) j = Some vb"
    and v: "v = pixel_value yb ub vb"
    by (auto simp add: pixel_at_def split: Option.bind_splits)
  from yIdx_Some [OF i] uvIdx_Some [OF j assms(2,3)] l v show ?thesis by auto
qed

lemma convert_pixels:
  assumes "buffers_ok m" "convertYuvToRgb m g = Some m'"
    and "0 \<le> x" "x < width g" "0 \<le> y" "y < height g"
  shows "\<exists>dst'. outBuffer m' = Some dst' \<and>
           length dst' = length (the (outBuffer m)) \<and>
           0 \<le> y * width g + x \<and> y * width g + x < int (length dst') \<and>
           pixel_at (planes_of m) g y x = Some (dst' ! nat (y * width g + x))"
proof -
  let ?d = "\<lparr>cells = the (outBuffer m), stores = stored m\<rparr>"
  from assms(1,2) obtain d where fl: "frame_loop (planes_of m) g 0 ?d = Some d"
    and m': "m' = m\<lparr>outBuffer := Some (cells d), stored := stores d\<rparr>"
    by (auto simp add: convert_ok split: option.splits)
  from frame_loop_pixels [OF fl assms(5,6,3,4)] frame_loop_length [OF fl] m'
  show ?thesis by simp
qed

lemma out_pixel_eq:
  assumes "buffers_ok m" "convertYuvToRgb m g = Some m'"
    and "0 \<le> x" "x < width g" "0 \<le> y" "y < height g"
  shows "out_pixel m g y x = pixel_at (planes_of m) g y x"
proof -
  from convert_pixels [OF assms] obtain dst' where "outBuffer m' = Some dst'"
    "0 \<le> y * width g + x" "y * width g + x < int (length dst')"
    "pixel_at (planes_of m) g y x = Some (dst' ! nat (y * width g + x))"
    by blast
  with assms(2) show ?thesis by (simp add: out_pixel_def load_def)
qed

lemma map_add_upto: "map (\<lambda>k. c + k) [i..j] = [c + i..c + j]"
proof (induction i j rule: upto.induct)
  case (1 i j)
  show ?case
  proof (cases "i \<le> j")
    case True
    then have "[i..j] = i # [i + 1..j]" "[c + i..c + j] = (c + i) # [c + i + 1..c + j]"
      by (simp_all add: upto_rec1)
    with "1.IH" [OF True] show ?thesis by (simp add: add.assoc)
  next
    case False
    then show ?thesis by simp
  qed
qed

lemma rows_concat:
  "0 < w \<Longrightarrow> y \<le> j + 1 \<Longrightarrow>
     concat (map (\<lambda>y'. map (\<lambda>x'. y' * w + x') [0..w - 1]) [y..j]) = [y * w..(j + 1) * w - 1]"
proof (induction y j rule: upto.induct)
  case (1 i j)
  show ?case
  proof (cases "i \<le> j")
    case True
    then have u: "[i..j] = i # [i + 1..j]" by (simp add: upto_rec1)
    have row: "map (\<lambda>x'. i * w + x') [0..w - 1] = [i * w..i * w + w - 1]"
    proof -
      have "i * w + (w - 1) = i * w + w - 1" by simp
      with map_add_upto [of "i * w" 0 "w - 1"] show ?thesis by simp
    qed
    have rest: "concat (map (\<lambda>y'. map (\<lambda>x'. y' * w + x') [0..w - 1]) [i + 1..j])
                  = [(i + 1) * w..(j + 1) * w - 1]"
      using "1.IH" [OF True "1.prems"(1)] True by simp
    from True have "i + 1 \<le> j + 1" by simp
    then have "(i + 1) * w \<le> (j + 1) * w"
      using "1.prems"(1) by (intro mult_right_mono) simp_all
    then have le: "i * w + w - 1 \<le> (j + 1) * w - 1" by (simp add: algebra_simps)
    have ge: "i * w \<le> i * w + w - 1" using "1.prems"(1) by simp
    have e: "(i + 1) * w = i * w + w - 1 + 1" by (simp add: algebra_simps)
    from upto_split2 [OF ge le] have "[i * w..(j + 1) * w - 1] = [i * w..i * w + w - 1] @ [(i + 1) * w..(j + 1) * w - 1]"
      by (simp only: e)
    with u row rest show ?thesis by simp
  next
    case False
    with "1.prems" have "i = j + 1" by simp
    then show ?thesis by simp
  qed
qed


lemma valid_pixel:
  assumes v: "valid_call m g" and r: "0 \<le> x" "x < width g" "0 \<le> y" "y < height g"
  shows "pixel_at (planes_of m) g y x \<noteq> None \<and> dstIdx g y x \<noteq> None \<and>
         0 \<le> y * width g + x \<and> y * width g + x < int (length (the (outBuffer m)))"
proof -
  let ?w = "width g" and ?h = "height g" and ?ys = "yRowStride g"
    and ?us = "uvRowStride g" and ?ps = "uvPixelStride g"
  let ?uy = "y div 2" and ?ux = "x div 2"
  from v have g: "0 < ?w" "0 < ?h" "?w \<le> ?ys" "1 \<le> ?ps" "(?w + 1) div 2 * ?ps \<le> ?us"
    and ly: "?ys * ?h \<le> int (length (the (yBuffer m)))" "int (length (the (yBuffer m))) < 2 ^ 31"
    and lu: "?us * ((?h + 1) div 2) \<le> int (length (the (uBuffer m)))" "int (length (the (uBuffer m))) < 2 ^ 31"
    and lv: "?us * ((?h + 1) div 2) \<le> int (length (the (vBuffer m)))" "int (length (the (vBuffer m))) < 2 ^ 31"
    and lo: "int (length (the (outBuffer m))) = ?w * ?h" "int (length (the (outBuffer m))) < 2 ^ 31"
    by (simp_all add: valid_call_def)
  \<comment> \<open>luma index\<close>
  have ys0: "0 \<le> ?ys" using g by simp
  have "(y + 1) * ?ys \<le> ?h * ?ys" using r ys0 by (intro mult_right_mono) simp_all
  then have y1: "y * ?ys + ?ys \<le> ?ys * ?h" by (simp add: algebra_simps)
  have y0: "0 \<le> y * ?ys" using r ys0 by simp
  from y0 y1 r g ly have yi: "0 \<le> y * ?ys + x" "y * ?ys + x < int (length (the (yBuffer m)))"
    "y * ?ys < 2 ^ 31" "y * ?ys + x < 2 ^ 31"
    by simp_all
  \<comment> \<open>output index\<close>
  have "(y + 1) * ?w \<le> ?h * ?w" using r g by (intro mult_right_mono) simp_all
  then have d1: "y * ?w + ?w \<le> ?w * ?h" by (simp add: algebra_simps)
  have d0: "0 \<le> y * ?w" using r g by simp
  from d0 d1 r lo have di: "0 \<le> y * ?w + x" "y * ?w + x < int (length (the (outBuffer m)))"
    "y * ?w < 2 ^ 31" "y * ?w + x < 2 ^ 31"
    by simp_all
  \<comment> \<open>chroma index\<close>
  have u0: "0 \<le> ?uy" "0 \<le> ?ux" using r by simp_all
  have uy1: "?uy + 1 \<le> (?h + 1) div 2" using r by linarith
  have ux1: "?ux + 1 \<le> (?w + 1) div 2" using r by linarith
  have "(?ux + 1) * ?ps \<le> (?w + 1) div 2 * ?ps" using ux1 g by (intro mult_right_mono) simp_all
  then have c1: "?ux * ?ps + ?ps \<le> ?us" using g by (simp add: algebra_simps)
  have c0: "0 \<le> ?ux * ?ps" using u0 g by simp
  from c0 c1 g have us0: "0 \<le> ?us" by simp
  have "(?uy + 1) * ?us \<le> (?h + 1) div 2 * ?us" using uy1 us0 by (intro mult_right_mono) simp_all
  then have b1: "?uy * ?us + ?us \<le> ?us * ((?h + 1) div 2)" by (simp add: algebra_simps)
  have b0: "0 \<le> ?uy * ?us" using u0 us0 by simp
  from b0 b1 c0 c1 g lu lv have ui: "0 \<le> ?uy * ?us + ?ux * ?ps"
    "?uy * ?us + ?ux * ?ps < int (length (the (uBuffer m)))"
    "?uy * ?us + ?ux * ?ps < int (length (the (vBuffer m)))"
    "?uy * ?us < 2 ^ 31" "?ux * ?ps < 2 ^ 31" "?uy * ?us + ?ux * ?ps < 2 ^ 31"
    by simp_all
  have "yIdx g y x = Some (y * ?ys + x)"
    using y0 yi by (simp add: yIdx_def int32_def)
  moreover have "uvIdx g y x = Some (?uy * ?us + ?ux * ?ps)"
    using b0 c0 ui r by (simp add: uvIdx_def int32_def sdiv_nonneg)
  moreover have "dstIdx g y x = Some (y * ?w + x)"
    using d0 di by (simp add: dstIdx_def int32_def)
  ultimately show ?thesis
    using yi ui di by (simp add: pixel_at_def load_def planes_of_def)
qed

lemma valid_returns:
  assumes "valid_call m g"
  shows "\<exists>m'. convertYuvToRgb m g = Some m'"
proof -
  let ?d = "\<lparr>cells = the (outBuffer m), stores = stored m\<rparr>"
  have "\<exists>d'. frame_loop (planes_of m) g 0 ?d = Some d'"
    using valid_pixel [OF assms] by (intro frame_loop_total) simp
  moreover from assms have "buffers_ok m" by (simp add: valid_call_def)
  ultimately show ?thesis by (auto simp add: convert_ok)
qed

lemma valid_buffers: "valid_call m g \<Longrightarrow> buffers_ok m"
  by (simp add: valid_call_def)

lemma valid_out_pixel:
  assumes "valid_call m g" "0 \<le> x" "x < width g" "0 \<le> y" "y < height g"
  shows "\<exists>v. out_pixel m g y x = Some v \<and> pixel_at (planes_of m) g y x = Some v"
proof -
  from valid_returns [OF assms(1)] obtain m' where m': "convertYuvToRgb m g = Some m'" ..
  from out_pixel_eq [OF valid_buffers [OF assms(1)] m' assms(2-5)] valid_pixel [OF assms]
  show ?thesis by auto
qed

subsection \<open>The fault path and degenerate frames\<close>

text \<open>
  C3. If any of the four buffers does not resolve to an address, the call returns (it does
  not run into undefined behaviour), leaves the output buffer, the store trace and the input
  planes as they were, and appends exactly one log entry. It is the only condition that
  is detected: with four addressable buffers a call that returns has logged nothing.
\<close>
theorem null_buffer_logs_and_returns:
  "(\<not> buffers_ok m \<longrightarrow>
      (\<exists>m'. convertYuvToRgb m g = Some m' \<and>
            outBuffer m' = outBuffer m \<and> stored m' = stored m \<and>
            yBuffer m' = yBuffer m \<and> uBuffer m' = uBuffer m \<and> vBuffer m' = vBuffer m \<and>
            logcat m' = logcat m @ [invalid_buffers])) \<and>
   (buffers_ok m \<longrightarrow> (\<forall>m'. convertYuvToRgb m g = Some m' \<longrightarrow> logcat m' = logcat m))"
  by (auto simp add: convert_null convert_ok split: option.splits)

theorem null_buffer_witness:
  "\<not> buffers_ok (frame2x2\<lparr>outBuffer := None\<rparr>) \<and>
   convertYuvToRgb (frame2x2\<lparr>outBuffer := None\<rparr>) geom2x2 =
     Some (frame2x2\<lparr>outBuffer := None, logcat := [invalid_buffers]\<rparr>) \<and>
   buffers_ok frame2x2 \<and>
   (\<exists>m'. convertYuvToRgb frame2x2 geom2x2 = Some m' \<and> logcat m' = [])"
proof -
  have a: "\<not> buffers_ok (frame2x2\<lparr>outBuffer := None\<rparr>)"
    by (simp add: buffers_ok_def frame2x2_def)
  have b: "buffers_ok frame2x2"
    by (simp add: buffers_ok_def frame2x2_def)
  have c: "convertYuvToRgb frame2x2 geom2x2 \<noteq> None"
    by code_simp
  have l: "logcat frame2x2 = []" by (simp add: frame2x2_def)
  from a b c l
    null_buffer_logs_and_returns [of "frame2x2\<lparr>outBuffer := None\<rparr>" geom2x2]
    null_buffer_logs_and_returns [of frame2x2 geom2x2]
  show ?thesis
    by (auto simp add: frame2x2_def)
qed

text \<open>
  C4. On the 2 by 2 frame with \<open>yRowStride = 2\<close>, \<open>uvRowStride = 1\<close>,
  \<open>uvPixelStride = 1\<close>, luma \<open>[16, 16, 16, 16]\<close> and chroma \<open>U = [128]\<close>, \<open>V = [128]\<close>,
  the call returns and all four output pixels equal \<open>0xFF101010\<close>, whatever the output
  buffer held before.
\<close>
theorem concrete_scenario:
  "convertYuvToRgb (frame2x2\<lparr>outBuffer := Some [a, b, c, d]\<rparr>) geom2x2 =
     Some (frame2x2\<lparr>outBuffer := Some [0xFF101010, 0xFF101010, 0xFF101010, 0xFF101010],
                   stored := [0, 1, 2, 3]\<rparr>)"
  by code_simp

text \<open>
  C9. With four addressable buffers and \<open>width \<le> 0\<close> or \<open>height \<le> 0\<close> the call returns
  with the memory unchanged: no output slot is stored to and nothing is logged.
\<close>
theorem empty_frame_is_noop:
  assumes "buffers_ok m" "width g \<le> 0 \<or> height g \<le> 0"
  shows "convertYuvToRgb m g = Some m"
proof -
  let ?d = "\<lparr>cells = the (outBuffer m), stores = stored m\<rparr>"
  have "frame_loop (planes_of m) g 0 ?d = Some ?d"
  proof (cases "width g \<le> 0")
    case True
    then show ?thesis by (rule frame_loop_no_columns)
  next
    case False
    with assms(2) have "\<not> 0 < height g" by simp
    then show ?thesis by (simp add: frame_loop.simps [of _ g 0])
  qed
  moreover have "m\<lparr>outBuffer := Some (the (outBuffer m)), stored := stored m\<rparr> = m"
    using assms(1) by (auto simp add: buffers_ok_def)
  ultimately show ?thesis using assms(1) by (simp add: convert_ok)
qed

theorem empty_frame_witness:
  "buffers_ok frame2x2 \<and>
   convertYuvToRgb frame2x2 (geom2x2\<lparr>width := 0\<rparr>) = Some frame2x2 \<and>
   convertYuvToRgb frame2x2 (geom2x2\<lparr>height := - 1\<rparr>) = Some frame2x2"
proof -
  have b: "buffers_ok frame2x2"
    by (simp add: buffers_ok_def frame2x2_def)
  from b empty_frame_is_noop [of frame2x2 "geom2x2\<lparr>width := 0\<rparr>"]
    empty_frame_is_noop [of frame2x2 "geom2x2\<lparr>height := - 1\<rparr>"]
  show ?thesis by (simp add: geom2x2_def)
qed

subsection \<open>The pixel arithmetic\<close>

lemma pixel_value_spec:
  "pixel_value yb ub vb =
     pack (spec_R (uint yb) (uint vb - 128))
          (spec_G (uint yb) (uint ub - 128) (uint vb - 128))
          (spec_B (uint yb) (uint ub - 128))"
  by (simp add: pixel_value_def Let_def red_spec green_spec blue_spec)

lemma pixel_value_word:
  "pixel_value yb ub vb =
     0xFF000000 OR push_bit 16 (word_of_int (red (luma yb) (chroma vb)))
       OR push_bit 8 (word_of_int (green (luma yb) (chroma ub) (chroma vb)))
       OR word_of_int (blue (luma yb) (chroma ub))"
  by (simp add: pixel_value_def Let_def pack_word)

lemma channel_range:
  "0 \<le> red Y V \<and> red Y V \<le> 255" "0 \<le> green Y U V \<and> green Y U V \<le> 255"
  "0 \<le> blue Y U \<and> blue Y U \<le> 255"
  by (simp_all add: red_def green_def blue_def clamp_range)

lemma pixel_value_alpha: "drop_bit 24 (pixel_value yb ub vb) = 0xFF"
  unfolding pixel_value_def Let_def
  using channel_range by (intro pack_alpha) simp_all

text \<open>
  C1. After a call that returns, with four addressable buffers, for every pixel \<open>(x, y)\<close>
  with \<open>0 \<le> x < width\<close> and \<open>0 \<le> y < height\<close>: the three bytes
  \<open>yPlane[y * yRowStride + x]\<close>, \<open>uPlane[uvIdx]\<close> and \<open>vPlane[uvIdx]\<close> with
  \<open>uvIdx = (y div 2) * uvRowStride + (x div 2) * uvPixelStride\<close> are in bounds, and with
  \<open>Y\<close> the luma byte and \<open>U\<close>, \<open>V\<close> the chroma bytes minus 128 the converter's
  \<open>R\<close>, \<open>G\<close>, \<open>B\<close> are \<open>clamp(Y + trunc(1.402 * V))\<close>,
  \<open>clamp(Y - trunc(0.344136 * U) - trunc(0.714136 * V))\<close> and \<open>clamp(Y + trunc(1.772 * U))\<close>,
  where \<open>trunc\<close> truncates the exact decimal product toward zero and
  \<open>clamp(v) = max(0, min(255, v))\<close>; the pixel stored is packed from these three values.
\<close>
theorem channel_formulas:
  assumes "buffers_ok m" "convertYuvToRgb m g = Some m'"
    and "0 \<le> x" "x < width g" "0 \<le> y" "y < height g"
  shows "\<exists>yb ub vb.
           load (the (yBuffer m)) (y * yRowStride g + x) = Some yb \<and>
           load (the (uBuffer m)) (y div 2 * uvRowStride g + x div 2 * uvPixelStride g) = Some ub \<and>
           load (the (vBuffer m)) (y div 2 * uvRowStride g + x div 2 * uvPixelStride g) = Some vb \<and>
           (let Y = uint yb; U = uint ub - 128; V = uint vb - 128 in
              red (luma yb) (chroma vb) = spec_R Y V \<and>
              green (luma yb) (chroma ub) (chroma vb) = spec_G Y U V \<and>
              blue (luma yb) (chroma ub) = spec_B Y U \<and>
              out_pixel m g y x = Some (pack (spec_R Y V) (spec_G Y U V) (spec_B Y U)))"
proof -
  from convert_pixels [OF assms] obtain v where v: "pixel_at (planes_of m) g y x = Some v"
    by blast
  from pixel_at_Some [OF v assms(3,5)] obtain yb ub vb where
    l: "load (the (yBuffer m)) (y * yRowStride g + x) = Some yb"
       "load (the (uBuffer m)) (y div 2 * uvRowStride g + x div 2 * uvPixelStride g) = Some ub"
       "load (the (vBuffer m)) (y div 2 * uvRowStride g + x div 2 * uvPixelStride g) = Some vb"
    and pv: "v = pixel_value yb ub vb"
    by (auto simp add: planes_of_def)
  have "out_pixel m g y x = Some (pixel_value yb ub vb)"
    using out_pixel_eq [OF assms] v pv by simp
  with l show ?thesis
    by (simp add: Let_def red_spec green_spec blue_spec pixel_value_spec)
qed

lemma frame2x2_result:
  "convertYuvToRgb frame2x2 geom2x2 =
     Some (frame2x2\<lparr>outBuffer := Some [0xFF101010, 0xFF101010, 0xFF101010, 0xFF101010],
                   stored := [0, 1, 2, 3]\<rparr>)"
  by code_simp

lemma frame2x2_buffers: "buffers_ok frame2x2"
  by (simp add: buffers_ok_def frame2x2_def)

theorem channel_formulas_witness:
  "buffers_ok frame2x2 \<and> convertYuvToRgb frame2x2 geom2x2 \<noteq> None \<and>
   (0::int) \<le> 1 \<and> 1 < width geom2x2 \<and> 1 < height geom2x2 \<and>
   out_pixel frame2x2 geom2x2 1 1 = Some (pack (spec_R 16 0) (spec_G 16 0 0) (spec_B 16 0))"
proof -
  have r: "(0::int) \<le> 1" "1 < width geom2x2" "1 < height geom2x2"
    by (simp_all add: geom2x2_def)
  from channel_formulas [OF frame2x2_buffers frame2x2_result r(1,2) r(1,3)]
  have "out_pixel frame2x2 geom2x2 1 1 = Some (pack (spec_R 16 0) (spec_G 16 0 0) (spec_B 16 0))"
    by (auto simp add: frame2x2_def geom2x2_def load_def Let_def)
  with frame2x2_buffers frame2x2_result r show ?thesis by simp
qed

text \<open>
  C2. After a call that returns, with four addressable buffers, for every pixel \<open>(x, y)\<close>
  of the frame the 32-bit value at \<open>outBuffer[y * width + x]\<close> is
  \<open>0xFF000000 | (R << 16) | (G << 8) | B\<close>, where \<open>R\<close>, \<open>G\<close>, \<open>B\<close> are the converter's
  channel values for the three bytes read, each between 0 and 255; its highest byte is \<open>0xFF\<close>.
\<close>
theorem packed_pixel:
  assumes "buffers_ok m" "convertYuvToRgb m g = Some m'"
    and "0 \<le> x" "x < width g" "0 \<le> y" "y < height g"
  shows "\<exists>yb ub vb R G B px.
           load (the (yBuffer m)) (y * yRowStride g + x) = Some yb \<and>
           load (the (uBuffer m)) (y div 2 * uvRowStride g + x div 2 * uvPixelStride g) = Some ub \<and>
           load (the (vBuffer m)) (y div 2 * uvRowStride g + x div 2 * uvPixelStride g) = Some vb \<and>
           R = red (luma yb) (chroma vb) \<and>
           G = green (luma yb) (chroma ub) (chroma vb) \<and>
           B = blue (luma yb) (chroma ub) \<and>
           0 \<le> R \<and> R \<le> 255 \<and> 0 \<le> G \<and> G \<le> 255 \<and> 0 \<le> B \<and> B \<le> 255 \<and>
           out_pixel m g y x = Some px \<and>
           px = 0xFF000000 OR push_bit 16 (word_of_int R) OR push_bit 8 (word_of_int G) OR word_of_int B \<and>
           drop_bit 24 px = 0xFF"
proof -
  from convert_pixels [OF assms] obtain v where v: "pixel_at (planes_of m) g y x = Some v"
    by blast
  from pixel_at_Some [OF v assms(3,5)] obtain yb ub vb where
    l: "load (the (yBuffer m)) (y * yRowStride g + x) = Some yb"
       "load (the (uBuffer m)) (y div 2 * uvRowStride g + x div 2 * uvPixelStride g) = Some ub"
       "load (the (vBuffer m)) (y div 2 * uvRowStride g + x div 2 * uvPixelStride g) = Some vb"
    and pv: "v = pixel_value yb ub vb"
    by (auto simp add: planes_of_def)
  have "out_pixel m g y x = Some (pixel_value yb ub vb)"
    using out_pixel_eq [OF assms] v pv by simp
  with l show ?thesis
    using pixel_value_word [of yb ub vb] pixel_value_alpha [of yb ub vb]
    by (simp add: channel_range)
qed

theorem packed_pixel_witness:
  "buffers_ok frame2x2 \<and> convertYuvToRgb frame2x2 geom2x2 \<noteq> None \<and>
   (0::int) \<le> 0 \<and> 0 < width geom2x2 \<and> 0 < height geom2x2 \<and>
   (\<exists>px. out_pixel frame2x2 geom2x2 0 0 = Some px \<and> drop_bit 24 px = 0xFF)"
proof -
  have r: "(0::int) \<le> 0" "0 < width geom2x2" "0 < height geom2x2"
    by (simp_all add: geom2x2_def)
  from packed_pixel [OF frame2x2_buffers frame2x2_result r(1,2) r(1,3)]
  have "\<exists>px. out_pixel frame2x2 geom2x2 0 0 = Some px \<and> drop_bit 24 px = 0xFF"
    by blast
  with frame2x2_buffers frame2x2_result r show ?thesis by simp
qed

lemma cast_zero:
  "int_of_f32 (f32_mul c1_402 (f32_of_int 0)) = 0"
  "int_of_f32 (f32_mul c0_344136 (f32_of_int 0)) = 0"
  "int_of_f32 (f32_mul c0_714136 (f32_of_int 0)) = 0"
  "int_of_f32 (f32_mul c1_772 (f32_of_int 0)) = 0"
  by (simp_all add: f32_eval c1_402_def c0_344136_def c0_714136_def c1_772_def)

lemma chroma_128: "chroma 128 = 0"
  by (simp add: chroma_uint)

lemma truncation_not_rounding: "red_sum 0 2 = 2 \<and> red_sum 0 (- 2) = - 2"
  by (simp add: red_sum_def f32_eval c1_402_def)

lemma channel_saturation:
  "(red (luma yb) (chroma 128) = luma yb \<and>
    green (luma yb) (chroma 128) (chroma 128) = luma yb \<and>
    blue (luma yb) (chroma 128) = luma yb) \<and>
   (red 0 0 = 0 \<and> green 0 0 0 = 0 \<and> blue 0 0 = 0) \<and>
   (255 < red_sum Y V \<longrightarrow> red Y V = 255) \<and> (red_sum Y V < 0 \<longrightarrow> red Y V = 0) \<and>
   (255 < green_sum Y U V \<longrightarrow> green Y U V = 255) \<and> (green_sum Y U V < 0 \<longrightarrow> green Y U V = 0) \<and>
   (255 < blue_sum Y U \<longrightarrow> blue Y U = 255) \<and> (blue_sum Y U < 0 \<longrightarrow> blue Y U = 0) \<and>
   red_sum 255 127 = 433 \<and> red 255 127 = 255"
proof -
  have "red (luma yb) (chroma 128) = luma yb"
    "green (luma yb) (chroma 128) (chroma 128) = luma yb"
    "blue (luma yb) (chroma 128) = luma yb"
    using luma_range [of yb]
    by (simp_all add: red_def green_def blue_def chroma_128 cast_zero clamp_def)
  moreover have "red 0 0 = 0" "green 0 0 0 = 0" "blue 0 0 = 0"
    by (simp_all add: red_def green_def blue_def cast_zero clamp_def)
  moreover have "red_sum 255 127 = 433"
    by (simp add: red_sum_def f32_eval c1_402_def)
  moreover from this have "red 255 127 = 255"
    by (simp add: red_clamp clamp_def)
  ultimately show ?thesis
    by (simp add: red_clamp green_clamp blue_clamp clamp_def)
qed

lemma byte_word: "0 \<le> k \<Longrightarrow> k \<le> 255 \<Longrightarrow> uint (word_of_int k :: u32) = k"
  by (simp add: uint_word_of_int)

lemma pack_red:
  assumes "0 \<le> R" "R \<le> 255" "0 \<le> G" "G \<le> 255" "0 \<le> B" "B \<le> 255"
  shows "red_of (pack R G B) = R"
proof -
  have mi: "(255 :: int) = mask 8" and m: "(0xFF :: u32) = mask 8"
    by (simp_all add: mask_eq_exp_minus_1)
  have "drop_bit 16 (pack R G B) AND 0xFF = word_of_int R"
  proof (rule bit_word_eqI)
    fix n assume "n < LENGTH(32)"
    show "bit (drop_bit 16 (pack R G B) AND 0xFF) n = bit (word_of_int R :: u32) n"
      unfolding m pack_def
      using byte_bit [OF assms(1,2), of n] byte_bit [OF assms(3,4), of "8 + n"]
        byte_bit [OF assms(5,6), of "16 + n"]
      by (auto simp add: bit_simps mi)
  qed
  then show ?thesis using assms by (simp add: red_of_def byte_word)
qed

lemma pack_green:
  assumes "0 \<le> R" "R \<le> 255" "0 \<le> G" "G \<le> 255" "0 \<le> B" "B \<le> 255"
  shows "green_of (pack R G B) = G"
proof -
  have mi: "(255 :: int) = mask 8" and m: "(0xFF :: u32) = mask 8"
    by (simp_all add: mask_eq_exp_minus_1)
  have "drop_bit 8 (pack R G B) AND 0xFF = word_of_int G"
  proof (rule bit_word_eqI)
    fix n assume "n < LENGTH(32)"
    show "bit (drop_bit 8 (pack R G B) AND 0xFF) n = bit (word_of_int G :: u32) n"
      unfolding m pack_def
      using byte_bit [OF assms(3,4), of n] byte_bit [OF assms(5,6), of "8 + n"]
      by (auto simp add: bit_simps mi)
  qed
  then show ?thesis using assms by (simp add: green_of_def byte_word)
qed

lemma pack_blue:
  assumes "0 \<le> R" "R \<le> 255" "0 \<le> G" "G \<le> 255" "0 \<le> B" "B \<le> 255"
  shows "blue_of (pack R G B) = B"
proof -
  have mi: "(255 :: int) = mask 8" and m: "(0xFF :: u32) = mask 8"
    by (simp_all add: mask_eq_exp_minus_1)
  have "pack R G B AND 0xFF = word_of_int B"
  proof (rule bit_word_eqI)
    fix n assume "n < LENGTH(32)"
    show "bit (pack R G B AND 0xFF) n = bit (word_of_int B :: u32) n"
      unfolding m pack_def
      using byte_bit [OF assms(5,6), of n]
      by (auto simp add: bit_simps mi)
  qed
  then show ?thesis using assms by (simp add: blue_of_def byte_word)
qed

lemma pixel_value_channels:
  "red_of (pixel_value yb ub vb) = red (luma yb) (chroma vb)"
  "green_of (pixel_value yb ub vb) = green (luma yb) (chroma ub) (chroma vb)"
  "blue_of (pixel_value yb ub vb) = blue (luma yb) (chroma ub)"
  unfolding pixel_value_def Let_def
  using channel_range by (simp_all add: pack_red pack_green pack_blue)

text \<open>
  C8. After a call that returns, for every pixel of the frame, with \<open>Y\<close> the luma byte read
  and \<open>U\<close>, \<open>V\<close> the chroma bytes read minus 128: if \<open>U = V = 0\<close> (raw bytes 128) the three
  channels of the output pixel equal \<open>Y\<close>, for \<open>Y = 0\<close> as for any other luma; a channel
  whose sum exceeds 255 is stored as 255 and a channel whose sum is negative as 0; in
  particular \<open>Y = 255\<close> with \<open>V = 127\<close> gives a red channel of 255.
\<close>
theorem clamp_boundary:
  assumes "buffers_ok m" "convertYuvToRgb m g = Some m'"
    and "0 \<le> x" "x < width g" "0 \<le> y" "y < height g"
  shows "\<exists>yb ub vb px.
           load (the (yBuffer m)) (y * yRowStride g + x) = Some yb \<and>
           load (the (uBuffer m)) (y div 2 * uvRowStride g + x div 2 * uvPixelStride g) = Some ub \<and>
           load (the (vBuffer m)) (y div 2 * uvRowStride g + x div 2 * uvPixelStride g) = Some vb \<and>
           out_pixel m g y x = Some px \<and>
           (let Y = uint yb; U = uint ub - 128; V = uint vb - 128 in
              (U = 0 \<and> V = 0 \<longrightarrow> red_of px = Y \<and> green_of px = Y \<and> blue_of px = Y) \<and>
              (255 < red_sum Y V \<longrightarrow> red_of px = 255) \<and>
              (red_sum Y V < 0 \<longrightarrow> red_of px = 0) \<and>
              (255 < green_sum Y U V \<longrightarrow> green_of px = 255) \<and>
              (green_sum Y U V < 0 \<longrightarrow> green_of px = 0) \<and>
              (255 < blue_sum Y U \<longrightarrow> blue_of px = 255) \<and>
              (blue_sum Y U < 0 \<longrightarrow> blue_of px = 0) \<and>
              (Y = 255 \<and> V = 127 \<longrightarrow> red_of px = 255))"
proof -
  from convert_pixels [OF assms] obtain p where p: "pixel_at (planes_of m) g y x = Some p"
    by blast
  from pixel_at_Some [OF p assms(3,5)] obtain yb ub vb where
    l: "load (the (yBuffer m)) (y * yRowStride g + x) = Some yb"
       "load (the (uBuffer m)) (y div 2 * uvRowStride g + x div 2 * uvPixelStride g) = Some ub"
       "load (the (vBuffer m)) (y div 2 * uvRowStride g + x div 2 * uvPixelStride g) = Some vb"
    and pv: "p = pixel_value yb ub vb"
    by (auto simp add: planes_of_def)
  have o: "out_pixel m g y x = Some (pixel_value yb ub vb)"
    using out_pixel_eq [OF assms] p pv by simp
  let ?Y = "uint yb" and ?U = "uint ub - 128" and ?V = "uint vb - 128"
  have ch: "red_of (pixel_value yb ub vb) = clamp (red_sum ?Y ?V)"
    "green_of (pixel_value yb ub vb) = clamp (green_sum ?Y ?U ?V)"
    "blue_of (pixel_value yb ub vb) = clamp (blue_sum ?Y ?U)"
    by (simp_all add: pixel_value_channels red_clamp green_clamp blue_clamp luma_uint chroma_uint)
  have Y: "0 \<le> ?Y" "?Y \<le> 255" using luma_range [of yb] by (simp_all add: luma_uint)
  have centre: "red_sum ?Y 0 = ?Y" "green_sum ?Y 0 0 = ?Y" "blue_sum ?Y 0 = ?Y"
    by (simp_all add: red_sum_def green_sum_def blue_sum_def cast_zero)
  have top: "red_sum 255 127 = 433"
    by (simp add: red_sum_def f32_eval c1_402_def)
  let ?px = "pixel_value yb ub vb"
  have c0: "?U = 0 \<and> ?V = 0 \<longrightarrow> red_of ?px = ?Y \<and> green_of ?px = ?Y \<and> blue_of ?px = ?Y"
  proof (intro impI, elim conjE)
    assume z: "?U = 0" "?V = 0"
    show "red_of ?px = ?Y \<and> green_of ?px = ?Y \<and> blue_of ?px = ?Y"
      unfolding ch z centre using Y by (simp add: clamp_def)
  qed
  have r1: "255 < red_sum ?Y ?V \<longrightarrow> red_of ?px = 255"
    and r0: "red_sum ?Y ?V < 0 \<longrightarrow> red_of ?px = 0"
    and g1: "255 < green_sum ?Y ?U ?V \<longrightarrow> green_of ?px = 255"
    and g0: "green_sum ?Y ?U ?V < 0 \<longrightarrow> green_of ?px = 0"
    and b1: "255 < blue_sum ?Y ?U \<longrightarrow> blue_of ?px = 255"
    and b0: "blue_sum ?Y ?U < 0 \<longrightarrow> blue_of ?px = 0"
    unfolding ch by (simp_all add: clamp_def)
  have t1: "?Y = 255 \<and> ?V = 127 \<longrightarrow> red_of ?px = 255"
  proof (intro impI, elim conjE)
    assume z: "?Y = 255" "?V = 127"
    show "red_of ?px = 255" unfolding ch z top by (simp add: clamp_def)
  qed
  from l o c0 r1 r0 g1 g0 b1 b0 t1 show ?thesis
    unfolding Let_def by blast
qed

lemma clamp_frame_buffers: "buffers_ok clamp_frame"
  by (simp add: buffers_ok_def clamp_frame_def)

lemma clamp_frame_returns: "convertYuvToRgb clamp_frame geom4x4 \<noteq> None"
  by code_simp

lemma extreme_sums:
  "255 < red_sum 255 127" "red_sum 0 (- 128) < 0"
  "255 < green_sum 255 (- 128) (- 128)" "green_sum 0 127 127 < 0"
  "255 < blue_sum 255 127" "blue_sum 0 (- 128) < 0"
  by (simp_all add: red_sum_def green_sum_def blue_sum_def f32_eval
      c1_402_def c0_344136_def c0_714136_def c1_772_def)

theorem clamp_boundary_witness:
  "buffers_ok clamp_frame \<and> convertYuvToRgb clamp_frame geom4x4 \<noteq> None \<and>
   (\<exists>px. out_pixel clamp_frame geom4x4 0 0 = Some px \<and>
      255 < red_sum 255 127 \<and> red_of px = 255 \<and> 255 < blue_sum 255 127 \<and> blue_of px = 255) \<and>
   (\<exists>px. out_pixel clamp_frame geom4x4 0 1 = Some px \<and>
      green_sum 0 127 127 < 0 \<and> green_of px = 0) \<and>
   (\<exists>px. out_pixel clamp_frame geom4x4 0 2 = Some px \<and>
      255 < green_sum 255 (- 128) (- 128) \<and> green_of px = 255) \<and>
   (\<exists>px. out_pixel clamp_frame geom4x4 0 3 = Some px \<and>
      red_sum 0 (- 128) < 0 \<and> red_of px = 0 \<and> blue_sum 0 (- 128) < 0 \<and> blue_of px = 0) \<and>
   (\<exists>px. out_pixel clamp_frame geom4x4 2 0 = Some px \<and>
      red_of px = 0 \<and> green_of px = 0 \<and> blue_of px = 0) \<and>
   (\<exists>px. out_pixel clamp_frame geom4x4 2 1 = Some px \<and>
      red_of px = 200 \<and> green_of px = 200 \<and> blue_of px = 200)"
proof -
  from clamp_frame_returns obtain m' where r: "convertYuvToRgb clamp_frame geom4x4 = Some m'"
    by auto
  note t = clamp_boundary [OF clamp_frame_buffers r]
  have g: "width geom4x4 = 4" "height geom4x4 = 4" by (simp_all add: geom4x4_def)
  have "\<exists>px. out_pixel clamp_frame geom4x4 0 0 = Some px \<and> red_of px = 255 \<and> blue_of px = 255"
    using t [of 0 0] extreme_sums
    by (auto simp add: clamp_frame_def geom4x4_def load_def Let_def)
  moreover have "\<exists>px. out_pixel clamp_frame geom4x4 0 1 = Some px \<and> green_of px = 0"
    using t [of 1 0] extreme_sums
    by (auto simp add: clamp_frame_def geom4x4_def load_def Let_def)
  moreover have "\<exists>px. out_pixel clamp_frame geom4x4 0 2 = Some px \<and> green_of px = 255"
    using t [of 2 0] extreme_sums
    by (auto simp add: clamp_frame_def geom4x4_def load_def Let_def)
  moreover have "\<exists>px. out_pixel clamp_frame geom4x4 0 3 = Some px \<and> red_of px = 0 \<and> blue_of px = 0"
    using t [of 3 0] extreme_sums
    by (auto simp add: clamp_frame_def geom4x4_def load_def Let_def)
  moreover have "\<exists>px. out_pixel clamp_frame geom4x4 2 0 = Some px \<and>
      red_of px = 0 \<and> green_of px = 0 \<and> blue_of px = 0"
    using t [of 0 2]
    by (auto simp add: clamp_frame_def geom4x4_def load_def Let_def)
  moreover have "\<exists>px. out_pixel clamp_frame geom4x4 2 1 = Some px \<and>
      red_of px = 200 \<and> green_of px = 200 \<and> blue_of px = 200"
    using t [of 1 2]
    by (auto simp add: clamp_frame_def geom4x4_def load_def Let_def)
  ultimately show ?thesis
    using clamp_frame_buffers clamp_frame_returns extreme_sums by simp
qed

subsection \<open>Whole frames\<close>

lemma pixel_at_cong:
  assumes "0 \<le> x" "0 \<le> y"
    and "pixel_at P g y x \<noteq> None" "pixel_at Q g y x \<noteq> None"
    and "load (srcY P) (y * yRowStride g + x) = load (srcY Q) (y * yRowStride g + x)"
    and "load (srcU P) (y div 2 * uvRowStride g + x div 2 * uvPixelStride g)
           = load (srcU Q) (y div 2 * uvRowStride g + x div 2 * uvPixelStride g)"
    and "load (srcV P) (y div 2 * uvRowStride g + x div 2 * uvPixelStride g)
           = load (srcV Q) (y div 2 * uvRowStride g + x div 2 * uvPixelStride g)"
  shows "pixel_at P g y x = pixel_at Q g y x"
proof -
  from assms(3,4) obtain v v' where v: "pixel_at P g y x = Some v" "pixel_at Q g y x = Some v'"
    by auto
  from pixel_at_Some [OF v(1) assms(1,2)] pixel_at_Some [OF v(2) assms(1,2)] assms(5-7) v
  show ?thesis by auto
qed

text \<open>
  C10. The output pixel at \<open>(x, y)\<close> is determined by three input bytes: if two calls with
  the same geometry both return, and their memories agree on \<open>yPlane[y * yRowStride + x]\<close>,
  \<open>uPlane[uvIdx]\<close> and \<open>vPlane[uvIdx]\<close> with
  \<open>uvIdx = (y div 2) * uvRowStride + (x div 2) * uvPixelStride\<close>, then both store the same
  value at \<open>outBuffer[y * width + x]\<close>, whatever else the memories hold.
\<close>
theorem pixel_noninterference:
  assumes "buffers_ok m1" "convertYuvToRgb m1 g = Some m1'"
    and "buffers_ok m2" "convertYuvToRgb m2 g = Some m2'"
    and "0 \<le> x" "x < width g" "0 \<le> y" "y < height g"
    and "load (the (yBuffer m1)) (y * yRowStride g + x)
           = load (the (yBuffer m2)) (y * yRowStride g + x)"
    and "load (the (uBuffer m1)) (y div 2 * uvRowStride g + x div 2 * uvPixelStride g)
           = load (the (uBuffer m2)) (y div 2 * uvRowStride g + x div 2 * uvPixelStride g)"
    and "load (the (vBuffer m1)) (y div 2 * uvRowStride g + x div 2 * uvPixelStride g)
           = load (the (vBuffer m2)) (y div 2 * uvRowStride g + x div 2 * uvPixelStride g)"
  shows "\<exists>px. out_pixel m1 g y x = Some px \<and> out_pixel m2 g y x = Some px"
proof -
  from convert_pixels [OF assms(1,2,5-8)] have p1: "pixel_at (planes_of m1) g y x \<noteq> None"
    by auto
  from convert_pixels [OF assms(3,4,5-8)] have p2: "pixel_at (planes_of m2) g y x \<noteq> None"
    by auto
  have "pixel_at (planes_of m1) g y x = pixel_at (planes_of m2) g y x"
    using assms(9-11) by (intro pixel_at_cong [OF assms(5,7) p1 p2]) (simp_all add: planes_of_def)
  with out_pixel_eq [OF assms(1,2,5-8)] out_pixel_eq [OF assms(3,4,5-8)] p1
  show ?thesis by auto
qed

lemma frame4x4_buffers: "buffers_ok frame4x4" "buffers_ok frame4x4_v"
  by (simp_all add: buffers_ok_def frame4x4_def frame4x4_v_def)

lemma frame4x4_returns:
  "convertYuvToRgb frame4x4 geom4x4 \<noteq> None" "convertYuvToRgb frame4x4_v geom4x4 \<noteq> None"
  by code_simp+

theorem pixel_noninterference_witness:
  "buffers_ok frame4x4 \<and> buffers_ok frame4x4_v \<and>
   convertYuvToRgb frame4x4 geom4x4 \<noteq> None \<and> convertYuvToRgb frame4x4_v geom4x4 \<noteq> None \<and>
   vBuffer frame4x4 \<noteq> vBuffer frame4x4_v \<and>
   (\<exists>px. out_pixel frame4x4 geom4x4 0 2 = Some px \<and> out_pixel frame4x4_v geom4x4 0 2 = Some px)"
proof -
  from frame4x4_returns obtain m1' m2' where
    r: "convertYuvToRgb frame4x4 geom4x4 = Some m1'" "convertYuvToRgb frame4x4_v geom4x4 = Some m2'"
    by auto
  have "\<exists>px. out_pixel frame4x4 geom4x4 0 2 = Some px \<and> out_pixel frame4x4_v geom4x4 0 2 = Some px"
    by (rule pixel_noninterference [OF frame4x4_buffers(1) r(1) frame4x4_buffers(2) r(2)])
      (simp_all add: geom4x4_def frame4x4_def frame4x4_v_def load_def)
  moreover have "vBuffer frame4x4 \<noteq> vBuffer frame4x4_v"
    by (simp add: frame4x4_def frame4x4_v_def)
  ultimately show ?thesis using frame4x4_buffers frame4x4_returns by simp
qed

lemma count_list_upto: "count_list [i..j] k = (if i \<le> k \<and> k \<le> j then 1 else 0)"
proof (induction i j rule: upto.induct)
  case (1 i j)
  show ?case
  proof (cases "i \<le> j")
    case True
    then have "[i..j] = i # [i + 1..j]" by (simp add: upto_rec1)
    with "1.IH" [OF True] True show ?thesis by auto
  next
    case False
    then show ?thesis by simp
  qed
qed

lemma convert_trace:
  assumes "buffers_ok m" "convertYuvToRgb m g = Some m'" "0 < width g" "0 < height g"
  shows "stored m' = stored m @ [0..width g * height g - 1]"
proof -
  let ?d = "\<lparr>cells = the (outBuffer m), stores = stored m\<rparr>"
  from assms(1,2) obtain d where fl: "frame_loop (planes_of m) g 0 ?d = Some d"
    and m': "m' = m\<lparr>outBuffer := Some (cells d), stored := stores d\<rparr>"
    by (auto simp add: convert_ok split: option.splits)
  have "concat (map (\<lambda>y'. map (\<lambda>x'. y' * width g + x') [0..width g - 1]) [0..height g - 1])
          = [0 * width g..(height g - 1 + 1) * width g - 1]"
    using assms(3,4) by (intro rows_concat) simp_all
  with frame_loop_stores [OF fl] m' show ?thesis by (simp add: mult.commute)
qed

lemma slot_coordinates:
  fixes w h :: int
  assumes "0 < w" "int i < w * h"
  shows "0 \<le> int i mod w" "int i mod w < w" "0 \<le> int i div w" "int i div w < h"
    "nat (int i div w * w + int i mod w) = i"
proof -
  show "0 \<le> int i mod w" "int i mod w < w" using assms(1) by simp_all
  show "0 \<le> int i div w" using assms(1) by (simp add: pos_imp_zdiv_nonneg_iff)
  have e: "int i div w * w + int i mod w = int i" by simp
  have "int i div w * w \<le> int i" using e \<open>0 \<le> int i mod w\<close> by linarith
  with assms(2) have "int i div w * w < h * w" by (simp add: mult.commute)
  then show "int i div w < h" using assms(1) by (simp add: mult_less_cancel_right)
  show "nat (int i div w * w + int i mod w) = i" by (simp only: e nat_int)
qed

lemma convert_cells:
  assumes "buffers_ok m" "convertYuvToRgb m g = Some m'" "0 < width g"
    and "int (length (the (outBuffer m))) = width g * height g"
  shows "outBuffer m' =
           Some (map (\<lambda>i. the (pixel_at (planes_of m) g (int i div width g) (int i mod width g)))
                   [0..<length (the (outBuffer m))])"
proof -
  from convert_pixels [OF assms(1,2)] have px:
    "\<And>x y. 0 \<le> x \<Longrightarrow> x < width g \<Longrightarrow> 0 \<le> y \<Longrightarrow> y < height g \<Longrightarrow>
       \<exists>dst'. outBuffer m' = Some dst' \<and> length dst' = length (the (outBuffer m)) \<and>
              pixel_at (planes_of m) g y x = Some (dst' ! nat (y * width g + x))"
    by blast
  from assms(1,2) obtain dst' where o: "outBuffer m' = Some dst'"
    and len: "length dst' = length (the (outBuffer m))"
    by (auto simp add: convert_ok frame_loop_length split: option.splits)
  have "dst' = map (\<lambda>i. the (pixel_at (planes_of m) g (int i div width g) (int i mod width g)))
                 [0..<length (the (outBuffer m))]"
  proof (rule nth_equalityI)
    show "length dst' = length (map (\<lambda>i. the (pixel_at (planes_of m) g (int i div width g) (int i mod width g)))
                 [0..<length (the (outBuffer m))])"
      by (simp add: len)
  next
    fix i assume "i < length dst'"
    then have i: "int i < width g * height g" "i < length (the (outBuffer m))"
      using len assms(4) by simp_all
    note c = slot_coordinates [OF assms(3) i(1)]
    from px [OF c(1,2,3,4)] o c(5)
    have "pixel_at (planes_of m) g (int i div width g) (int i mod width g) = Some (dst' ! i)"
      by auto
    then show "dst' ! i = map (\<lambda>i. the (pixel_at (planes_of m) g (int i div width g) (int i mod width g)))
                 [0..<length (the (outBuffer m))] ! i"
      using i(2) by simp
  qed
  with o show ?thesis by simp
qed

lemma valid_facts:
  assumes "valid_call m g"
  shows "0 < width g" "0 < height g" "int (length (the (outBuffer m))) = width g * height g"
  using assms by (simp_all add: valid_call_def)

text \<open>
  C7. Two valid calls with the same geometry and the same three input planes return with
  identical output buffers, whatever the output buffers, the log and the store trace held
  before.
\<close>
theorem deterministic_output:
  assumes "valid_call m1 g" "valid_call m2 g"
    and "yBuffer m1 = yBuffer m2" "uBuffer m1 = uBuffer m2" "vBuffer m1 = vBuffer m2"
  shows "\<exists>m1' m2' out. convertYuvToRgb m1 g = Some m1' \<and> convertYuvToRgb m2 g = Some m2' \<and>
           outBuffer m1' = Some out \<and> outBuffer m2' = Some out"
proof -
  from valid_returns [OF assms(1)] obtain m1' where r1: "convertYuvToRgb m1 g = Some m1'" ..
  from valid_returns [OF assms(2)] obtain m2' where r2: "convertYuvToRgb m2 g = Some m2'" ..
  have p: "planes_of m1 = planes_of m2" using assms(3-5) by (simp add: planes_of_def)
  have l: "length (the (outBuffer m1)) = length (the (outBuffer m2))"
    using valid_facts(3) [OF assms(1)] valid_facts(3) [OF assms(2)] by simp
  from convert_cells [OF valid_buffers [OF assms(1)] r1 valid_facts(1,3) [OF assms(1)]]
    convert_cells [OF valid_buffers [OF assms(2)] r2 valid_facts(1,3) [OF assms(2)]]
  have "outBuffer m1' = outBuffer m2'" "outBuffer m1' \<noteq> None"
    by (simp_all add: p l)
  with r1 r2 show ?thesis by auto
qed

lemma frame2x2_valid:
  "valid_call frame2x2 geom2x2"
  "valid_call (frame2x2\<lparr>outBuffer := Some [1, 2, 3, 4], logcat := [invalid_buffers]\<rparr>) geom2x2"
  by (simp_all add: valid_call_def buffers_ok_def frame2x2_def geom2x2_def)

theorem deterministic_output_witness:
  "valid_call frame2x2 geom2x2 \<and>
   valid_call (frame2x2\<lparr>outBuffer := Some [1, 2, 3, 4], logcat := [invalid_buffers]\<rparr>) geom2x2 \<and>
   (\<exists>m1' m2' out. convertYuvToRgb frame2x2 geom2x2 = Some m1' \<and>
      convertYuvToRgb (frame2x2\<lparr>outBuffer := Some [1, 2, 3, 4], logcat := [invalid_buffers]\<rparr>) geom2x2
        = Some m2' \<and>
      outBuffer m1' = Some out \<and> outBuffer m2' = Some out)"
  using frame2x2_valid deterministic_output [OF frame2x2_valid]
  by simp

text \<open>
  C6. A valid call returns; the stores it performs are to the indices
  \<open>0, 1, ..., width * height - 1\<close> in this order, so every slot of the output buffer is stored
  to exactly once and no other index is stored to; afterwards every slot holds the pixel
  computed for its coordinates; the three input planes and the log are unchanged.
\<close>
theorem full_coverage:
  assumes "valid_call m g"
  shows "\<exists>m' dst'. convertYuvToRgb m g = Some m' \<and>
           stores_of_call m m' = [0..width g * height g - 1] \<and>
           (\<forall>i. count_list (stores_of_call m m') i = (if 0 \<le> i \<and> i < width g * height g then 1 else 0)) \<and>
           outBuffer m' = Some dst' \<and> int (length dst') = width g * height g \<and>
           (\<forall>x y. 0 \<le> x \<and> x < width g \<and> 0 \<le> y \<and> y < height g \<longrightarrow>
              pixel_at (planes_of m) g y x = Some (dst' ! nat (y * width g + x))) \<and>
           yBuffer m' = yBuffer m \<and> uBuffer m' = uBuffer m \<and> vBuffer m' = vBuffer m \<and>
           logcat m' = logcat m"
proof -
  note b = valid_buffers [OF assms]
  from valid_returns [OF assms] obtain m' where r: "convertYuvToRgb m g = Some m'" ..
  from convert_trace [OF b r valid_facts(1,2) [OF assms]]
  have t: "stores_of_call m m' = [0..width g * height g - 1]"
    by (simp add: stores_of_call_def)
  have c: "\<forall>i. count_list (stores_of_call m m') i = (if 0 \<le> i \<and> i < width g * height g then 1 else 0)"
    unfolding t count_list_upto by auto
  from b r obtain dst' where o: "outBuffer m' = Some dst'"
    and len: "length dst' = length (the (outBuffer m))"
    and same: "yBuffer m' = yBuffer m" "uBuffer m' = uBuffer m" "vBuffer m' = vBuffer m"
      "logcat m' = logcat m"
    by (auto simp add: convert_ok frame_loop_length split: option.splits)
  have px: "\<forall>x y. 0 \<le> x \<and> x < width g \<and> 0 \<le> y \<and> y < height g \<longrightarrow>
              pixel_at (planes_of m) g y x = Some (dst' ! nat (y * width g + x))"
    using convert_pixels [OF b r] o by auto
  from r t c o len valid_facts(3) [OF assms] px same show ?thesis by simp
qed

theorem full_coverage_witness:
  "valid_call frame2x2 geom2x2 \<and>
   (\<exists>m'. convertYuvToRgb frame2x2 geom2x2 = Some m' \<and> stores_of_call frame2x2 m' = [0, 1, 2, 3] \<and>
      yBuffer m' = yBuffer frame2x2 \<and> uBuffer m' = uBuffer frame2x2 \<and> vBuffer m' = vBuffer frame2x2)"
proof -
  have "[0..width geom2x2 * height geom2x2 - 1] = [0, 1, 2, 3]"
    by (simp add: geom2x2_def upto_rec1)
  with frame2x2_valid(1) full_coverage [OF frame2x2_valid(1)] show ?thesis
    by auto
qed

subsection \<open>The shared chroma sample of a 2 by 2 block\<close>

lemma load_update_other: "i \<noteq> int k \<Longrightarrow> load (xs[k := b]) i = load xs i"
  by (auto simp add: load_def)

lemma load_update_same: "load xs (int k) = Some a \<Longrightarrow> load (xs[k := b]) (int k) = Some b"
  by (auto simp add: load_def split: if_splits)

lemma pixel_value_sums:
  "pixel_value yb ub vb =
     pack (clamp (red_sum (luma yb) (chroma vb)))
          (clamp (green_sum (luma yb) (chroma ub) (chroma vb)))
          (clamp (blue_sum (luma yb) (chroma ub)))"
  by (simp add: pixel_value_def Let_def red_clamp green_clamp blue_clamp)

lemma sum_deltas:
  "red_sum Y V - red_sum Y V0 = red_sum 0 V - red_sum 0 V0"
  "green_sum Y U V - green_sum Y U0 V0 = green_sum 0 U V - green_sum 0 U0 V0"
  "blue_sum Y U - blue_sum Y U0 = blue_sum 0 U - blue_sum 0 U0"
  by (simp_all add: red_sum_def green_sum_def blue_sum_def)

lemma block_uvIdx:
  assumes "0 \<le> x" "x \<le> 1" "0 \<le> y" "y \<le> 1"
  shows "uvIdx g y x = Some 0"
proof -
  from assms have "x div 2 = 0" "y div 2 = 0" by simp_all
  with assms show ?thesis by (simp add: uvIdx_def sdiv_nonneg int32_def)
qed

lemma valid_update_chroma:
  assumes "valid_call m g"
  shows "valid_call (m\<lparr>uBuffer := Some ((the (uBuffer m))[i := u]),
                      vBuffer := Some ((the (vBuffer m))[j := v])\<rparr>) g"
  using assms by (simp add: valid_call_def buffers_ok_def)

lemma valid_update_luma:
  assumes "valid_call m g"
  shows "valid_call (m\<lparr>yBuffer := Some ((the (yBuffer m))[i := b])\<rparr>) g"
  using assms by (simp add: valid_call_def buffers_ok_def)

lemma luma_index_distinct:
  fixes ys :: int
  assumes "0 \<le> x" "x < ys" "0 \<le> x0" "x0 < ys" "(x, y) \<noteq> (x0, y0)"
  shows "y * ys + x \<noteq> y0 * ys + x0"
proof (cases "y = y0")
  case True
  with assms show ?thesis by simp
next
  case False
  then consider "y < y0" | "y0 < y" by linarith
  then show ?thesis
  proof cases
    case 1
    from row_index_distinct [OF 1 assms(3,2,1)] show ?thesis .
  next
    case 2
    from row_index_distinct [OF 2 assms(1,4,3)] show ?thesis by simp
  qed
qed

lemma chroma_counterexample_frames:
  "uBuffer frame4x4_v = uBuffer frame4x4 \<and> yBuffer frame4x4_v = yBuffer frame4x4 \<and>
   vBuffer frame4x4_v = Some ((the (vBuffer frame4x4))[0 := 255])"
  by (simp add: frame4x4_v_def frame4x4_def)

text \<open>
  C5 speaks of the channels of the output pixels, and these do not change by the same delta. In \<open>frame4x4\<close> the
  pixels \<open>(0,0)\<close> and \<open>(1,0)\<close> have luma 16 and 235; raising \<open>V[0]\<close> from 128 to 255 adds
  178 to both red sums, and the red channel of the first pixel goes from 16 to 194 while
  that of the second goes from 235 to the clamp's 255.
\<close>

theorem chroma_delta_counterexample:
  "red_delta frame4x4 frame4x4_v geom4x4 0 0 = Some 178 \<and>
   red_delta frame4x4 frame4x4_v geom4x4 0 1 = Some 20"
  by code_simp

text \<open>
  C5, as the code has it. In a valid 4 by 4 frame the four luma positions \<open>(0,0)\<close>,
  \<open>(1,0)\<close>, \<open>(0,1)\<close>, \<open>(1,1)\<close> all read the chroma pair at index 0. Each of their
  output channels is the clamp of a sum of the pixel's own luma and a term computed from
  that pair alone, so changing only \<open>U[0]\<close> and \<open>V[0]\<close> changes the three sums of all four
  pixels by the same deltas (the change of the sums at luma 0); the stored channels are the
  clamped sums. Changing only the luma sample of one of the four positions leaves every
  other output pixel of the frame as it was.
\<close>
theorem chroma_block_shared:
  fixes m :: memory and g :: geometry and u v b :: u8 and x0 y0 :: int
  defines "m2 \<equiv> m\<lparr>uBuffer := Some ((the (uBuffer m))[0 := u]),
                     vBuffer := Some ((the (vBuffer m))[0 := v])\<rparr>"
    and "m3 \<equiv> m\<lparr>yBuffer := Some ((the (yBuffer m))[nat (y0 * yRowStride g + x0) := b])\<rparr>"
  assumes valid: "valid_call m g" and size: "width g = 4" "height g = 4"
    and pos: "0 \<le> x0" "x0 \<le> 1" "0 \<le> y0" "y0 \<le> 1"
  shows "(\<exists>u0 v0.
            load (the (uBuffer m)) 0 = Some u0 \<and> load (the (vBuffer m)) 0 = Some v0 \<and>
            (\<forall>x y. 0 \<le> x \<and> x \<le> 1 \<and> 0 \<le> y \<and> y \<le> 1 \<longrightarrow>
               uvIdx g y x = Some 0 \<and>
               (\<exists>yb. load (the (yBuffer m)) (y * yRowStride g + x) = Some yb \<and>
                  out_pixel m g y x =
                    Some (pack (clamp (red_sum (luma yb) (chroma v0)))
                               (clamp (green_sum (luma yb) (chroma u0) (chroma v0)))
                               (clamp (blue_sum (luma yb) (chroma u0)))) \<and>
                  out_pixel m2 g y x =
                    Some (pack (clamp (red_sum (luma yb) (chroma v)))
                               (clamp (green_sum (luma yb) (chroma u) (chroma v)))
                               (clamp (blue_sum (luma yb) (chroma u)))) \<and>
                  red_sum (luma yb) (chroma v) - red_sum (luma yb) (chroma v0)
                    = red_sum 0 (chroma v) - red_sum 0 (chroma v0) \<and>
                  green_sum (luma yb) (chroma u) (chroma v) - green_sum (luma yb) (chroma u0) (chroma v0)
                    = green_sum 0 (chroma u) (chroma v) - green_sum 0 (chroma u0) (chroma v0) \<and>
                  blue_sum (luma yb) (chroma u) - blue_sum (luma yb) (chroma u0)
                    = blue_sum 0 (chroma u) - blue_sum 0 (chroma u0)))) \<and>
         (\<forall>x y. 0 \<le> x \<and> x < 4 \<and> 0 \<le> y \<and> y < 4 \<and> (x, y) \<noteq> (x0, y0) \<longrightarrow>
            out_pixel m3 g y x = out_pixel m g y x \<and> out_pixel m g y x \<noteq> None)"
proof -
  have valid2: "valid_call m2 g" unfolding m2_def by (rule valid_update_chroma [OF valid])
  have valid3: "valid_call m3 g" unfolding m3_def by (rule valid_update_luma [OF valid])
  \<comment> \<open>the chroma pair of the first block\<close>
  have in00: "(0::int) \<le> 0" "0 < width g" "0 < height g" using size by simp_all
  from valid_out_pixel [OF valid in00(1,2) in00(1,3)] obtain v00 where
    "pixel_at (planes_of m) g 0 0 = Some v00" by blast
  from pixel_at_Some [OF this] obtain u0 v0 where
    c0: "load (the (uBuffer m)) 0 = Some u0" "load (the (vBuffer m)) 0 = Some v0"
    by (auto simp add: planes_of_def)
  have c2: "load (the (uBuffer m2)) 0 = Some u" "load (the (vBuffer m2)) 0 = Some v"
    using load_update_same [of "the (uBuffer m)" 0 u0 u] load_update_same [of "the (vBuffer m)" 0 v0 v] c0
    by (simp_all add: m2_def)
  have block: "uvIdx g y x = Some 0 \<and>
      (\<exists>yb. load (the (yBuffer m)) (y * yRowStride g + x) = Some yb \<and>
         out_pixel m g y x =
           Some (pack (clamp (red_sum (luma yb) (chroma v0)))
                      (clamp (green_sum (luma yb) (chroma u0) (chroma v0)))
                      (clamp (blue_sum (luma yb) (chroma u0)))) \<and>
         out_pixel m2 g y x =
           Some (pack (clamp (red_sum (luma yb) (chroma v)))
                      (clamp (green_sum (luma yb) (chroma u) (chroma v)))
                      (clamp (blue_sum (luma yb) (chroma u)))) \<and>
         red_sum (luma yb) (chroma v) - red_sum (luma yb) (chroma v0)
           = red_sum 0 (chroma v) - red_sum 0 (chroma v0) \<and>
         green_sum (luma yb) (chroma u) (chroma v) - green_sum (luma yb) (chroma u0) (chroma v0)
           = green_sum 0 (chroma u) (chroma v) - green_sum 0 (chroma u0) (chroma v0) \<and>
         blue_sum (luma yb) (chroma u) - blue_sum (luma yb) (chroma u0)
           = blue_sum 0 (chroma u) - blue_sum 0 (chroma u0))"
    if xy: "0 \<le> x" "x \<le> 1" "0 \<le> y" "y \<le> 1" for x y
  proof -
    from xy size have r: "x < width g" "y < height g" by simp_all
    from xy have d: "y div 2 * uvRowStride g + x div 2 * uvPixelStride g = 0" by simp
    from valid_out_pixel [OF valid xy(1) r(1) xy(3) r(2)] obtain p where
      p: "out_pixel m g y x = Some p" "pixel_at (planes_of m) g y x = Some p" by blast
    from pixel_at_Some [OF p(2) xy(1,3)] c0 obtain yb where
      yb: "load (the (yBuffer m)) (y * yRowStride g + x) = Some yb" "p = pixel_value yb u0 v0"
      by (auto simp add: planes_of_def d)
    from valid_out_pixel [OF valid2 xy(1) r(1) xy(3) r(2)] obtain q where
      q: "out_pixel m2 g y x = Some q" "pixel_at (planes_of m2) g y x = Some q" by blast
    have "yBuffer m2 = yBuffer m" by (simp add: m2_def)
    with pixel_at_Some [OF q(2) xy(1,3)] c2 yb(1) have "q = pixel_value yb u v"
      by (auto simp add: planes_of_def d)
    with p q yb have
      "out_pixel m g y x = Some (pixel_value yb u0 v0)"
      "out_pixel m2 g y x = Some (pixel_value yb u v)"
      by simp_all
    with yb(1) block_uvIdx [OF xy]
      sum_deltas(1) [of "luma yb" "chroma v" "chroma v0"]
      sum_deltas(2) [of "luma yb" "chroma u" "chroma v" "chroma u0" "chroma v0"]
      sum_deltas(3) [of "luma yb" "chroma u" "chroma u0"]
    show ?thesis unfolding pixel_value_sums by blast
  qed
  \<comment> \<open>a changed luma sample\<close>
  have other: "out_pixel m3 g y x = out_pixel m g y x \<and> out_pixel m g y x \<noteq> None"
    if xy: "0 \<le> x" "x < 4" "0 \<le> y" "y < 4" "(x, y) \<noteq> (x0, y0)" for x y
  proof -
    from xy size have r: "x < width g" "y < height g" by simp_all
    from valid have ys: "width g \<le> yRowStride g" by (simp add: valid_call_def)
    from valid_out_pixel [OF valid xy(1) r(1) xy(3) r(2)] obtain p where
      p: "out_pixel m g y x = Some p" "pixel_at (planes_of m) g y x = Some p" by blast
    from valid_out_pixel [OF valid3 xy(1) r(1) xy(3) r(2)] obtain q where
      q: "out_pixel m3 g y x = Some q" "pixel_at (planes_of m3) g y x = Some q" by blast
    have k0: "0 \<le> y0 * yRowStride g + x0" using pos ys size by simp
    have "y * yRowStride g + x \<noteq> y0 * yRowStride g + x0"
      using xy pos ys size by (intro luma_index_distinct) simp_all
    with k0 have ne: "y * yRowStride g + x \<noteq> int (nat (y0 * yRowStride g + x0))" by simp
    have "pixel_at (planes_of m3) g y x = pixel_at (planes_of m) g y x"
      using p(2) q(2) load_update_other [OF ne, of "the (yBuffer m)" b]
      by (intro pixel_at_cong [OF xy(1,3)]) (simp_all add: planes_of_def m3_def)
    with p q show ?thesis by simp
  qed
  from c0 block other show ?thesis
    by blast
qed


lemma frame4x4_valid: "valid_call frame4x4 geom4x4"
  by (simp add: valid_call_def buffers_ok_def frame4x4_def geom4x4_def)

theorem chroma_block_shared_witness:
  "valid_call frame4x4 geom4x4 \<and> width geom4x4 = 4 \<and> height geom4x4 = 4 \<and>
   uvIdx geom4x4 1 1 = Some 0 \<and>
   out_pixel (frame4x4\<lparr>yBuffer := Some ((the (yBuffer frame4x4))[nat (0 * yRowStride geom4x4 + 0) := 17])\<rparr>)
       geom4x4 0 1
     = out_pixel frame4x4 geom4x4 0 1"
proof -
  have s: "width geom4x4 = 4" "height geom4x4 = 4" by (simp_all add: geom4x4_def)
  have p: "(0::int) \<le> 0" "(0::int) \<le> 1" by simp_all
  note t = chroma_block_shared [OF frame4x4_valid s p(1,2,1,2), where u = 128 and v = 255 and b = 17]
  from t have "\<forall>x y. 0 \<le> x \<and> x \<le> 1 \<and> 0 \<le> y \<and> y \<le> 1 \<longrightarrow> uvIdx geom4x4 y x = Some 0"
    by blast
  from this [rule_format, of 1 1] have a: "uvIdx geom4x4 1 1 = Some 0" by simp
  from t have "\<forall>x y. 0 \<le> x \<and> x < 4 \<and> 0 \<le> y \<and> y < 4 \<and> (x, y) \<noteq> (0, 0) \<longrightarrow>
      out_pixel (frame4x4\<lparr>yBuffer := Some ((the (yBuffer frame4x4))[nat (0 * yRowStride geom4x4 + 0) := 17])\<rparr>)
          geom4x4 y x
        = out_pixel frame4x4 geom4x4 y x"
    by blast
  from this [rule_format, of 1 0] have b:
    "out_pixel (frame4x4\<lparr>yBuffer := Some ((the (yBuffer frame4x4))[nat (0 * yRowStride geom4x4 + 0) := 17])\<rparr>)
         geom4x4 0 1
       = out_pixel frame4x4 geom4x4 0 1"
    by simp
  from frame4x4_valid s a b show ?thesis by simp
qed

end
